theory Spec2Isabelle
  imports Complex_Main "HOL-Library.Word"
begin

section \<open>The in-memory quote store of quotes-service\<close>

text \<open>
  A shallow embedding of \<^verbatim>\<open>internal/storage/memorystorage/memorystorage.go\<close>.

  \<^item> \<^verbatim>\<open>int64\<close> is a 64-bit word: \<^verbatim>\<open>s.nextID++\<close> wraps around as Go's signed addition
    does, and ids are compared through \<open>sint\<close>.
  \<^item> A Go slice is a header (address of the backing array, length) over a heap of backing
    arrays, so that sharing between a returned slice and \<^verbatim>\<open>s.quotesList\<close> is visible in
    the model. The program never reslices, so every slice starts at index 0 of its array and
    its capacity is the length of that array.
  \<^item> The map \<^verbatim>\<open>s.quotes\<close> is never handed out, so it is a value \<open>int64 \<rightharpoonup> Quote\<close>.
  \<^item> Every method runs under \<^verbatim>\<open>s.mu\<close> from its first access of the struct to its return;
    the model is the sequential behaviour of one such critical section at a time.
\<close>

subsection \<open>Data\<close>

type_synonym int64 = "64 word"

text \<open>\<^verbatim>\<open>models.Quote\<close>\<close>

record Quote =
  ID :: int64
  Text :: string
  Author :: string

text \<open>The zero value \<^verbatim>\<open>models.Quote{}\<close>.\<close>

definition zeroQuote :: Quote where
  "zeroQuote = \<lparr>ID = 0, Text = [], Author = []\<rparr>"

text \<open>
  Modelled from the spec: \<^verbatim>\<open>storage.ErrQuoteNotFound\<close> is declared in package
  \<^verbatim>\<open>quotes-service/internal/storage\<close>, whose source is not part of the files at hand. The
  spec names it \<open>NotFound\<close>, the only domain-specific failure, distinguishable from
  cancellation and from any other fault; it is a sentinel error value, here a constructor of
  its own.

  \<^verbatim>\<open>context.Canceled\<close> and \<^verbatim>\<open>context.DeadlineExceeded\<close> are the two values
  \<^verbatim>\<open>ctx.Err()\<close> has once \<^verbatim>\<open>ctx.Done()\<close> is closed. \<open>IndexOutOfRange\<close> stands for the
  run-time panic of an index expression out of range (it is not a returned value in Go).
\<close>

datatype error = ErrQuoteNotFound | Canceled | DeadlineExceeded | IndexOutOfRange

text \<open>
  A \<^verbatim>\<open>context.Context\<close> at the moment the method looks at it: still live, cancelled, or
  past its deadline.
\<close>

datatype Context = Background | Cancelled | Expired

fun Err :: "Context \<Rightarrow> error option" where
  "Err Background = None"
| "Err Cancelled = Some Canceled"
| "Err Expired = Some DeadlineExceeded"

text \<open>\<^verbatim>\<open>case <-ctx.Done():\<close> is ready exactly when the channel is closed.\<close>

fun Done :: "Context \<Rightarrow> bool" where
  "Done Background = False"
| "Done Cancelled = True"
| "Done Expired = True"

subsection \<open>Slices over a heap of backing arrays\<close>

type_synonym addr = nat

text \<open>The heap: the backing array at address \<open>a\<close> is \<open>h ! a\<close>; allocation appends.\<close>

type_synonym heap = "Quote list list"

datatype slice = NilSlice | Slice addr nat

fun len :: "slice \<Rightarrow> nat" where
  "len NilSlice = 0"
| "len (Slice p n) = n"

fun ptr :: "slice \<Rightarrow> addr option" where
  "ptr NilSlice = None"
| "ptr (Slice p n) = Some p"

text \<open>The capacity of a slice is the length of its backing array.\<close>

fun cap :: "heap \<Rightarrow> slice \<Rightarrow> nat" where
  "cap h NilSlice = 0"
| "cap h (Slice p n) = length (h ! p)"

text \<open>\<^verbatim>\<open>sl[i]\<close> for \<open>i < len sl\<close>.\<close>

fun index :: "heap \<Rightarrow> slice \<Rightarrow> nat \<Rightarrow> Quote" where
  "index h NilSlice i = zeroQuote"
| "index h (Slice p n) i = h ! p ! i"

text \<open>The elements a slice shows: the first \<open>len\<close> cells of its array.\<close>

fun elems :: "heap \<Rightarrow> slice \<Rightarrow> Quote list" where
  "elems h NilSlice = []"
| "elems h (Slice p n) = take n (h ! p)"

text \<open>\<^verbatim>\<open>make([]models.Quote, n, c)\<close>: a new zeroed array of \<open>c\<close> cells.\<close>

definition make_slice :: "heap \<Rightarrow> nat \<Rightarrow> nat \<Rightarrow> slice \<times> heap" where
  "make_slice h n c = (Slice (length h) n, h @ [replicate c zeroQuote])"

text \<open>
  The capacity \<^verbatim>\<open>append\<close> gives a reallocated array. The Go runtime guarantees only that
  it holds the elements needed; amortised doubling stands for its growth policy.
\<close>

definition growcap :: "nat \<Rightarrow> nat \<Rightarrow> nat" where
  "growcap oldcap needed = max needed (2 * oldcap)"

text \<open>
  \<^verbatim>\<open>append(sl, x)\<close>: written in place when the array has room, else into a new array that
  receives a copy of the elements.
\<close>

fun append_slice :: "heap \<Rightarrow> slice \<Rightarrow> Quote \<Rightarrow> slice \<times> heap" where
  "append_slice h NilSlice x =
     (Slice (length h) 1, h @ [x # replicate (growcap 0 1 - 1) zeroQuote])"
| "append_slice h (Slice p n) x =
     (if n < cap h (Slice p n) then (Slice p (Suc n), h[p := (h ! p)[n := x]])
      else (Slice (length h) (Suc n),
            h @ [take n (h ! p) @
                 x # replicate (growcap (cap h (Slice p n)) (Suc n) - Suc n) zeroQuote]))"

text \<open>\<^verbatim>\<open>copy(dst, src)\<close>: the first \<open>min (len dst) (len src)\<close> elements.\<close>

fun copy_slice :: "heap \<Rightarrow> slice \<Rightarrow> slice \<Rightarrow> heap" where
  "copy_slice h NilSlice src = h"
| "copy_slice h (Slice pd nd) src =
     (let k = min nd (len src)
      in h[pd := take k (elems h src) @ drop k (h ! pd)])"

text \<open>
  The loop shared by \<^verbatim>\<open>GetQuotesByAuthor\<close> and \<^verbatim>\<open>DeleteQuote\<close>:
  \<^verbatim>\<open>for _, q := range src { if P(q) { dst = append(dst, q) } }\<close>.
  The range expression is evaluated once; element \<open>i\<close> is read at iteration \<open>i\<close>.
\<close>

fun range_step :: "(Quote \<Rightarrow> bool) \<Rightarrow> slice \<Rightarrow> nat \<Rightarrow> slice \<times> heap \<Rightarrow> slice \<times> heap" where
  "range_step P src i (dst, h) =
     (let q = index h src i
      in if P q then append_slice h dst q else (dst, h))"

definition range_append ::
  "(Quote \<Rightarrow> bool) \<Rightarrow> slice \<Rightarrow> slice \<times> heap \<Rightarrow> slice \<times> heap" where
  "range_append P src = fold (range_step P src) [0..<len src]"

subsection \<open>The store\<close>

text \<open>\<^verbatim>\<open>type Storage struct\<close>, without the lock.\<close>

record Storage =
  quotes :: "int64 \<rightharpoonup> Quote"
  quotesList :: slice
  nextID :: int64

text \<open>The program state: the heap and the one \<^verbatim>\<open>Storage\<close> value.\<close>

type_synonym state = "heap \<times> Storage"

fun New :: "heap \<Rightarrow> error option \<times> state" where
  "New h =
     (let (l, h') = make_slice h 0 0
      in (None, (h', \<lparr>quotes = Map.empty, quotesList = l, nextID = 1\<rparr>)))"

fun AddQuote :: "Context \<Rightarrow> string \<Rightarrow> string \<Rightarrow> state \<Rightarrow> (int64 \<times> error option) \<times> state" where
  "AddQuote ctx text author (h, s) =
     (if Done ctx then ((0, Err ctx), (h, s))
      else
        let id' = nextID s;
            s = s\<lparr>nextID := nextID s + 1\<rparr>;
            quote = \<lparr>ID = id', Text = text, Author = author\<rparr>;
            s = s\<lparr>quotes := (quotes s)(id' \<mapsto> quote)\<rparr>;
            (l, h) = append_slice h (quotesList s) quote;
            s = s\<lparr>quotesList := l\<rparr>
        in ((id', None), (h, s)))"

fun GetAllQuotes :: "Context \<Rightarrow> state \<Rightarrow> (slice \<times> error option) \<times> state" where
  "GetAllQuotes ctx (h, s) =
     (if Done ctx then ((NilSlice, Err ctx), (h, s))
      else
        let (listCopy, h) = make_slice h (len (quotesList s)) (len (quotesList s));
            h = copy_slice h listCopy (quotesList s)
        in ((listCopy, None), (h, s)))"

text \<open>
  \<open>r\<close> is the value \<^verbatim>\<open>rand.Intn(len(s.quotesList))\<close> returns; the library promises
  \<open>r < len\<close>, and an index outside the slice would panic.
\<close>

fun GetRandomQuote :: "Context \<Rightarrow> nat \<Rightarrow> state \<Rightarrow> (Quote \<times> error option) \<times> state" where
  "GetRandomQuote ctx r (h, s) =
     (if Done ctx then ((zeroQuote, Err ctx), (h, s))
      else if len (quotesList s) = 0 then ((zeroQuote, Some ErrQuoteNotFound), (h, s))
      else
        let randomIndex = r
        in if randomIndex < len (quotesList s)
           then ((index h (quotesList s) randomIndex, None), (h, s))
           else ((zeroQuote, Some IndexOutOfRange), (h, s)))"

fun GetQuotesByAuthor :: "Context \<Rightarrow> string \<Rightarrow> state \<Rightarrow> (slice \<times> error option) \<times> state" where
  "GetQuotesByAuthor ctx authorFilter (h, s) =
     (if Done ctx then ((NilSlice, Err ctx), (h, s))
      else
        let (result, h) =
              range_append (\<lambda>q. Author q = authorFilter) (quotesList s) (NilSlice, h)
        in if result = NilSlice
           then (let (l, h) = make_slice h 0 0 in ((l, None), (h, s)))
           else ((result, None), (h, s)))"

fun DeleteQuote :: "Context \<Rightarrow> int64 \<Rightarrow> state \<Rightarrow> error option \<times> state" where
  "DeleteQuote ctx id' (h, s) =
     (if Done ctx then (Err ctx, (h, s))
      else if quotes s id' = None then (Some ErrQuoteNotFound, (h, s))
      else
        let s = s\<lparr>quotes := (quotes s)(id' := None)\<rparr>;
            (newList, h) =
              (if len (quotesList s) > 0 then make_slice h 0 (len (quotesList s) - 1)
               else make_slice h 0 0);
            (newList, h) = range_append (\<lambda>q. ID q \<noteq> id') (quotesList s) (newList, h);
            s = s\<lparr>quotesList := newList\<rparr>
        in (None, (h, s)))"

fun Close :: "state \<Rightarrow> error option \<times> state" where
  "Close (h, s) =
     (let s = s\<lparr>quotes := Map.empty\<rparr>;
          (l, h) = make_slice h 0 0;
          s = s\<lparr>quotesList := l\<rparr>;
          s = s\<lparr>nextID := 1\<rparr>
      in (None, (h, s)))"

subsection \<open>Calls and runs\<close>

text \<open>
  A call of one of the six methods by a client holding the context \<open>ctx\<close>. The five methods of
  the handler's \<^verbatim>\<open>QuoteStore\<close> interface receive the context; \<^verbatim>\<open>Close()\<close> has no
  context parameter.
\<close>

datatype call =
  Add string string | ListAll | Random nat | ByAuthor string | Delete int64 | Reset

datatype reply =
  IdReply int64 "error option"
| ListReply slice "error option"
| QuoteReply Quote "error option"
| ErrReply "error option"

fun invoke :: "Context \<Rightarrow> call \<Rightarrow> state \<Rightarrow> reply \<times> state" where
  "invoke ctx (Add t a) w = (case AddQuote ctx t a w of ((k, e), w') \<Rightarrow> (IdReply k e, w'))"
| "invoke ctx ListAll w = (case GetAllQuotes ctx w of ((l, e), w') \<Rightarrow> (ListReply l e, w'))"
| "invoke ctx (Random r) w =
     (case GetRandomQuote ctx r w of ((q, e), w') \<Rightarrow> (QuoteReply q e, w'))"
| "invoke ctx (ByAuthor f) w =
     (case GetQuotesByAuthor ctx f w of ((l, e), w') \<Rightarrow> (ListReply l e, w'))"
| "invoke ctx (Delete k) w = (case DeleteQuote ctx k w of (e, w') \<Rightarrow> (ErrReply e, w'))"
| "invoke ctx Reset w = (case Close w of (e, w') \<Rightarrow> (ErrReply e, w'))"

fun reply_err :: "reply \<Rightarrow> error option" where
  "reply_err (IdReply k e) = e"
| "reply_err (ListReply l e) = e"
| "reply_err (QuoteReply q e) = e"
| "reply_err (ErrReply e) = e"

text \<open>A sequence of calls, one after the other; the replies in call order.\<close>

fun run :: "(Context \<times> call) list \<Rightarrow> state \<Rightarrow> reply list \<times> state" where
  "run [] w = ([], w)"
| "run ((ctx, c) # cs) w =
     (case invoke ctx c w of (r, w') \<Rightarrow>
        (case run cs w' of (rs, w'') \<Rightarrow> (r # rs, w'')))"

text \<open>The ids the successful \<open>Add\<close> calls of a run returned, in call order.\<close>

fun add_ids :: "reply list \<Rightarrow> int64 list" where
  "add_ids [] = []"
| "add_ids (IdReply k None # rs) = k # add_ids rs"
| "add_ids (r # rs) = add_ids rs"

text \<open>The number of \<open>Add\<close> calls of a run whose context is live.\<close>

fun live_adds :: "(Context \<times> call) list \<Rightarrow> nat" where
  "live_adds [] = 0"
| "live_adds ((ctx, Add t a) # cs) = (if Done ctx then live_adds cs else Suc (live_adds cs))"
| "live_adds (c # cs) = live_adds cs"

text \<open>
  \<open>n\<close> rounds of adding a quote and deleting it again, for the ids \<open>i, i + 1, \<dots>\<close>: the
  counter advances while the store keeps its size.
\<close>

definition churn :: "nat \<Rightarrow> nat \<Rightarrow> (Context \<times> call) list" where
  "churn i n =
     concat (map (\<lambda>j. [(Background, Add ''x'' ''y''), (Background, Delete (of_nat j))]) [i..<i + n])"

text \<open>A sample store: four quotes added to a new store.\<close>

definition demo :: state where
  "demo = snd (run [(Background, Add ''a'' ''Bob''), (Background, Add ''b'' ''bob''),
                    (Background, Add ''c'' '' Bob''), (Background, Add ''d'' ''Bob'')]
                   (snd (New [])))"

text \<open>
  A store whose counter has gone once around the 64-bit range: one quote is added to a new
  store, then \<open>2^64 - 1\<close> rounds of \<open>churn\<close> use up the ids \<open>2, 3, \<dots>\<close> up to the wrap-around.
\<close>

definition wrapped :: state where
  "wrapped = snd (run ((Background, Add ''a'' ''b'') # churn 2 (2 ^ 64 - 1)) (snd (New [])))"

subsection \<open>State predicates\<close>

text \<open>Memory safety of a slice header: its array exists and holds \<open>len\<close> cells.\<close>

fun wf_slice :: "heap \<Rightarrow> slice \<Rightarrow> bool" where
  "wf_slice h NilSlice = True"
| "wf_slice h (Slice p n) = (p < length h \<and> n \<le> length (h ! p))"

text \<open>The array of the slice is not the one at address \<open>a\<close>.\<close>

fun away :: "slice \<Rightarrow> addr \<Rightarrow> bool" where
  "away NilSlice a = True"
| "away (Slice p n) a = (p \<noteq> a)"

text \<open>Memory safety of the state: the slice \<^verbatim>\<open>s.quotesList\<close> is well formed in the heap.\<close>

definition wf_state :: "state \<Rightarrow> bool" where
  "wf_state w = wf_slice (fst w) (quotesList (snd w))"

text \<open>The ordered sequence of stored quotes: what \<^verbatim>\<open>s.quotesList\<close> shows.\<close>

definition contents :: "state \<Rightarrow> Quote list" where
  "contents w = elems (fst w) (quotesList (snd w))"

text \<open>
  The store invariant: the map and the sequence hold the same quotes, and no id occurs twice
  in the sequence.
\<close>

definition store_inv :: "state \<Rightarrow> bool" where
  "store_inv w \<longleftrightarrow>
     distinct (map ID (contents w)) \<and>
     dom (quotes (snd w)) = ID ` set (contents w) \<and>
     (\<forall>q \<in> set (contents w). quotes (snd w) (ID q) = Some q)"

section \<open>Slices\<close>

lemma growcap_ge: "needed \<le> growcap oldcap needed"
  by (simp add: growcap_def)

lemma append_slice_grows:
  "append_slice h sl x = (sl', h') \<Longrightarrow> length h \<le> length h'"
  by (cases sl) (auto split: if_splits)

lemma append_slice_not_nil:
  "append_slice h sl x = (sl', h') \<Longrightarrow> sl' \<noteq> NilSlice"
  by (cases sl) (auto split: if_splits)

lemma append_slice_frame:
  "append_slice h sl x = (sl', h') \<Longrightarrow> a < length h \<Longrightarrow> away sl a \<Longrightarrow>
   h' ! a = h ! a \<and> away sl' a"
  by (cases sl) (auto split: if_splits simp: nth_append)

lemma append_slice_elems:
  "wf_slice h sl \<Longrightarrow> append_slice h sl x = (sl', h') \<Longrightarrow>
   wf_slice h' sl' \<and> elems h' sl' = elems h sl @ [x]"
  using growcap_ge [of "Suc (len sl)" "cap h sl"]
  apply (cases sl)
   apply (auto split: if_splits simp: nth_append take_Suc_conv_app_nth)
  done

lemma range_step_frame:
  "range_step P src i (dst, h) = (dst', h') \<Longrightarrow> a < length h \<Longrightarrow> away dst a \<Longrightarrow>
   h' ! a = h ! a \<and> away dst' a \<and> length h \<le> length h'"
  by (auto simp: Let_def split: if_splits dest: append_slice_frame append_slice_grows)

lemma fold_range_step_frame:
  "fold (range_step P src) is (dst, h) = (dst', h') \<Longrightarrow> a < length h \<Longrightarrow> away dst a \<Longrightarrow>
   h' ! a = h ! a \<and> away dst' a \<and> length h \<le> length h'"
proof (induction "is" arbitrary: dst h)
  case Nil
  then show ?case by simp
next
  case (Cons i "is")
  obtain d g where st: "range_step P src i (dst, h) = (d, g)"
    by (cases "range_step P src i (dst, h)")
  from range_step_frame [OF st Cons.prems(2,3)]
  have g: "g ! a = h ! a" "away d a" "length h \<le> length g" by auto
  from Cons.prems(1) st have "fold (range_step P src) is (d, g) = (dst', h')" by simp
  from Cons.IH [OF this] g Cons.prems(2) show ?case by auto
qed

lemma range_append_frame:
  "range_append P src (dst, h) = (dst', h') \<Longrightarrow> a < length h \<Longrightarrow> away dst a \<Longrightarrow>
   h' ! a = h ! a \<and> away dst' a \<and> length h \<le> length h'"
  unfolding range_append_def by (rule fold_range_step_frame)

lemma range_step_grows:
  "range_step P src i (dst, h) = (dst', h') \<Longrightarrow> length h \<le> length h'"
  by (auto simp: Let_def split: if_splits dest: append_slice_grows)

lemma fold_range_step_grows:
  "fold (range_step P src) is (dst, h) = (dst', h') \<Longrightarrow> length h \<le> length h'"
proof (induction "is" arbitrary: dst h)
  case Nil
  then show ?case by simp
next
  case (Cons i "is")
  obtain d g where st: "range_step P src i (dst, h) = (d, g)"
    by (cases "range_step P src i (dst, h)")
  from Cons.prems st have "fold (range_step P src) is (d, g) = (dst', h')" by simp
  from Cons.IH [OF this] range_step_grows [OF st] show ?case by simp
qed

lemma range_append_grows:
  "range_append P src (dst, h) = (dst', h') \<Longrightarrow> length h \<le> length h'"
  unfolding range_append_def by (rule fold_range_step_grows)

text \<open>After k iterations.\<close>

lemma range_prefix:
  assumes src: "wf_slice h src" and dst: "wf_slice h dst"
    and apart: "\<And>a. ptr src = Some a \<Longrightarrow> away dst a"
  shows "k \<le> len src \<Longrightarrow> fold (range_step P src) [0..<k] (dst, h) = (d, g) \<Longrightarrow>
     wf_slice g d \<and> elems g d = elems h dst @ filter P (take k (elems h src)) \<and>
     length h \<le> length g \<and> (\<forall>a. ptr src = Some a \<longrightarrow> g ! a = h ! a \<and> away d a) \<and>
     (d = NilSlice \<longrightarrow> dst = NilSlice \<and> filter P (take k (elems h src)) = [])"
proof (induction k arbitrary: d g)
  case 0
  then show ?case using apart dst by auto
next
  case (Suc k)
  obtain d0 g0 where pre: "fold (range_step P src) [0..<k] (dst, h) = (d0, g0)"
    by (cases "fold (range_step P src) [0..<k] (dst, h)")
  from Suc.prems have k: "k < len src" by simp
  from Suc.IH [OF _ pre] k
  have ih: "wf_slice g0 d0" "elems g0 d0 = elems h dst @ filter P (take k (elems h src))"
    "length h \<le> length g0" "\<And>a. ptr src = Some a \<Longrightarrow> g0 ! a = h ! a \<and> away d0 a"
    "d0 = NilSlice \<Longrightarrow> dst = NilSlice \<and> filter P (take k (elems h src)) = []"
    by auto
  from k obtain p n where sl: "src = Slice p n" by (cases src) auto
  with src k have pn: "p < length h" "n \<le> length (h ! p)" "k < n" by auto
  from ih(4) [of p] sl have same: "g0 ! p = h ! p" and aw: "away d0 p" by auto
  have q: "index g0 src k = elems h src ! k" using sl same pn by simp
  have tk: "take (Suc k) (elems h src) = take k (elems h src) @ [elems h src ! k]"
    using sl pn by (simp add: take_Suc_conv_app_nth)
  from Suc.prems(2) pre have step: "range_step P src k (d0, g0) = (d, g)" by simp
  show ?case
  proof (cases "P (elems h src ! k)")
    case False
    with step q have "d = d0" "g = g0" by (auto simp: Let_def)
    with ih False tk show ?thesis by auto
  next
    case True
    with step q have app: "append_slice g0 d0 (elems h src ! k) = (d, g)" by (auto simp: Let_def)
    from append_slice_elems [OF ih(1) app]
    have a1: "wf_slice g d" "elems g d = elems g0 d0 @ [elems h src ! k]" by auto
    from append_slice_frame [OF app _ aw] pn ih(3)
    have a2: "g ! p = g0 ! p" "away d p" by auto
    from append_slice_grows [OF app] have a3: "length g0 \<le> length g" .
    from append_slice_not_nil [OF app] have a4: "d \<noteq> NilSlice" .
    show ?thesis using a1 a2 a3 a4 ih(2,3) same True tk sl by auto
  qed
qed

lemma range_append_elems:
  assumes "wf_slice h src" "wf_slice h dst" "\<And>a. ptr src = Some a \<Longrightarrow> away dst a"
    and "range_append P src (dst, h) = (d, g)"
  shows "wf_slice g d \<and> elems g d = elems h dst @ filter P (elems h src) \<and>
     wf_slice g src \<and> elems g src = elems h src \<and>
     (d = NilSlice \<longrightarrow> dst = NilSlice \<and> filter P (elems h src) = [])"
proof -
  have le: "len src \<le> len src" by simp
  have tk: "take (len src) (elems h src) = elems h src" by (cases src) auto
  from range_prefix [OF assms(1,2,3) le assms(4) [unfolded range_append_def]] tk
  have r: "wf_slice g d" "elems g d = elems h dst @ filter P (elems h src)"
    "length h \<le> length g" "\<And>a. ptr src = Some a \<Longrightarrow> g ! a = h ! a"
    "d = NilSlice \<longrightarrow> dst = NilSlice \<and> filter P (elems h src) = []"
    by auto
  have "wf_slice g src \<and> elems g src = elems h src"
    using assms(1) r(3,4) by (cases src) auto
  with r show ?thesis by simp
qed

section \<open>The effect of each method\<close>

declare AddQuote.simps [simp del] GetAllQuotes.simps [simp del] GetRandomQuote.simps [simp del]
  GetQuotesByAuthor.simps [simp del] DeleteQuote.simps [simp del] Close.simps [simp del]
  New.simps [simp del]

lemma New_effect:
  "New h = (e, w) \<Longrightarrow>
   e = None \<and> wf_state w \<and> contents w = [] \<and> quotes (snd w) = Map.empty \<and> nextID (snd w) = 1"
  by (auto simp: New.simps make_slice_def wf_state_def contents_def)

lemma AddQuote_done:
  "Done ctx \<Longrightarrow> AddQuote ctx t a w = ((0, Err ctx), w)"
  by (cases w) (simp add: AddQuote.simps)

lemma AddQuote_effect:
  assumes "\<not> Done ctx" "wf_state w" "AddQuote ctx t a w = ((k, e), w')"
  shows "k = nextID (snd w) \<and> e = None \<and> wf_state w' \<and>
     contents w' = contents w @ [\<lparr>ID = k, Text = t, Author = a\<rparr>] \<and>
     quotes (snd w') = (quotes (snd w))(k \<mapsto> \<lparr>ID = k, Text = t, Author = a\<rparr>) \<and>
     nextID (snd w') = nextID (snd w) + 1"
proof -
  obtain h s where w: "w = (h, s)" by (cases w)
  obtain l g where app:
    "append_slice h (quotesList s) \<lparr>ID = nextID s, Text = t, Author = a\<rparr> = (l, g)"
    by (cases "append_slice h (quotesList s) \<lparr>ID = nextID s, Text = t, Author = a\<rparr>")
  from assms(2) w have "wf_slice h (quotesList s)" by (simp add: wf_state_def)
  from append_slice_elems [OF this app] assms(1,3) w app
  show ?thesis by (auto simp: AddQuote.simps Let_def wf_state_def contents_def)
qed

lemma AddQuote_id:
  "\<not> Done ctx \<Longrightarrow> AddQuote ctx t a w = ((k, e), w') \<Longrightarrow>
   k = nextID (snd w) \<and> e = None \<and> nextID (snd w') = nextID (snd w) + 1 \<and>
   quotes (snd w') = (quotes (snd w))(k \<mapsto> \<lparr>ID = k, Text = t, Author = a\<rparr>)"
  by (cases w) (auto simp: AddQuote.simps Let_def split: prod.splits)

lemma GetAllQuotes_done:
  "Done ctx \<Longrightarrow> GetAllQuotes ctx w = ((NilSlice, Err ctx), w)"
  by (cases w) (simp add: GetAllQuotes.simps)

lemma GetAllQuotes_effect:
  assumes "\<not> Done ctx" "wf_state w" "GetAllQuotes ctx w = ((l, e), w')"
  shows "e = None \<and> l = Slice (length (fst w)) (length (contents w)) \<and>
     elems (fst w') l = contents w \<and> wf_slice (fst w') l \<and>
     snd w' = snd w \<and> wf_state w' \<and> contents w' = contents w \<and>
     length (fst w') = Suc (length (fst w))"
proof -
  obtain h s where w: "w = (h, s)" by (cases w)
  from assms(2) w have wfs: "wf_slice h (quotesList s)" by (simp add: wf_state_def)
  have ln: "length (elems h (quotesList s)) = len (quotesList s)"
    using wfs by (cases "quotesList s") auto
  have ext: "elems (h @ [xs]) (quotesList s) = elems h (quotesList s)" for xs
    using wfs by (cases "quotesList s") (auto simp: nth_append)
  show ?thesis using assms(1,3) w wfs ln ext
    by (cases "quotesList s")
      (auto simp: GetAllQuotes.simps make_slice_def Let_def wf_state_def contents_def nth_append)
qed

lemma GetRandomQuote_done:
  "Done ctx \<Longrightarrow> GetRandomQuote ctx r w = ((zeroQuote, Err ctx), w)"
  by (cases w) (simp add: GetRandomQuote.simps)

lemma GetRandomQuote_state: "snd (GetRandomQuote ctx r w) = w"
  by (cases w) (simp add: GetRandomQuote.simps Let_def)

lemma len_contents: "wf_state w \<Longrightarrow> len (quotesList (snd w)) = length (contents w)"
  by (cases w, cases "quotesList (snd w)") (auto simp: wf_state_def contents_def)

lemma GetRandomQuote_effect:
  "\<not> Done ctx \<Longrightarrow> wf_state w \<Longrightarrow>
   fst (GetRandomQuote ctx r w) =
     (if contents w = [] then (zeroQuote, Some ErrQuoteNotFound)
      else if r < length (contents w) then (contents w ! r, None)
      else (zeroQuote, Some IndexOutOfRange))"
  using len_contents [of w]
  by (cases w, cases "quotesList (snd w)")
    (auto simp: GetRandomQuote.simps Let_def wf_state_def contents_def)

lemma GetQuotesByAuthor_done:
  "Done ctx \<Longrightarrow> GetQuotesByAuthor ctx f w = ((NilSlice, Err ctx), w)"
  by (cases w) (simp add: GetQuotesByAuthor.simps)

lemma GetQuotesByAuthor_effect:
  assumes "\<not> Done ctx" "wf_state w" "GetQuotesByAuthor ctx f w = ((l, e), w')"
  shows "e = None \<and> l \<noteq> NilSlice \<and> wf_slice (fst w') l \<and>
     elems (fst w') l = filter (\<lambda>q. Author q = f) (contents w) \<and>
     snd w' = snd w \<and> wf_state w' \<and> contents w' = contents w"
proof -
  obtain h s where w: "w = (h, s)" by (cases w)
  from assms(2) w have wfs: "wf_slice h (quotesList s)" by (simp add: wf_state_def)
  obtain d g where ra:
    "range_append (\<lambda>q. Author q = f) (quotesList s) (NilSlice, h) = (d, g)"
    by (cases "range_append (\<lambda>q. Author q = f) (quotesList s) (NilSlice, h)")
  have "wf_slice h NilSlice" "\<And>a. ptr (quotesList s) = Some a \<Longrightarrow> away NilSlice a" by auto
  from range_append_elems [OF wfs this ra]
  have r: "wf_slice g d" "elems g d = filter (\<lambda>q. Author q = f) (elems h (quotesList s))"
    "wf_slice g (quotesList s)" "elems g (quotesList s) = elems h (quotesList s)"
    "d = NilSlice \<longrightarrow> filter (\<lambda>q. Author q = f) (elems h (quotesList s)) = []"
    by auto
  have ext: "elems (g @ [xs]) (quotesList s) = elems g (quotesList s)"
    "wf_slice (g @ [xs]) (quotesList s)" for xs
    using r(3) by (cases "quotesList s"; auto simp: nth_append)+
  show ?thesis
  proof (cases "d = NilSlice")
    case True
    with assms(1,3) w ra r ext show ?thesis
      by (auto simp: GetQuotesByAuthor.simps make_slice_def wf_state_def contents_def)
  next
    case False
    with assms(1,3) w ra r show ?thesis
      by (auto simp: GetQuotesByAuthor.simps wf_state_def contents_def)
  qed
qed

lemma DeleteQuote_done:
  "Done ctx \<Longrightarrow> DeleteQuote ctx k w = (Err ctx, w)"
  by (cases w) (simp add: DeleteQuote.simps)

lemma DeleteQuote_missing:
  "\<not> Done ctx \<Longrightarrow> quotes (snd w) k = None \<Longrightarrow> DeleteQuote ctx k w = (Some ErrQuoteNotFound, w)"
  by (cases w) (simp add: DeleteQuote.simps)

lemma DeleteQuote_present:
  "\<not> Done ctx \<Longrightarrow> quotes (snd w) k \<noteq> None \<Longrightarrow> DeleteQuote ctx k w = (e, w') \<Longrightarrow>
   e = None \<and> quotes (snd w') = (quotes (snd w))(k := None) \<and> nextID (snd w') = nextID (snd w)"
  by (cases w) (auto simp: DeleteQuote.simps Let_def split: prod.splits if_splits)

lemma DeleteQuote_effect:
  assumes "\<not> Done ctx" "wf_state w" "quotes (snd w) k \<noteq> None" "DeleteQuote ctx k w = (e, w')"
  shows "wf_state w' \<and> contents w' = filter (\<lambda>q. ID q \<noteq> k) (contents w)"
proof -
  obtain h s where w: "w = (h, s)" by (cases w)
  from assms(2) w have wfs: "wf_slice h (quotesList s)" by (simp add: wf_state_def)
  define c where "c = (if len (quotesList s) > 0 then len (quotesList s) - 1 else 0)"
  define h1 where "h1 = h @ [replicate c zeroQuote]"
  define nl where "nl = Slice (length h) 0"
  have mk: "(if len (quotesList s) > 0 then make_slice h 0 (len (quotesList s) - 1)
             else make_slice h 0 0) = (nl, h1)"
    by (simp add: make_slice_def c_def h1_def nl_def)
  obtain d g where ra: "range_append (\<lambda>q. ID q \<noteq> k) (quotesList s) (nl, h1) = (d, g)"
    by (cases "range_append (\<lambda>q. ID q \<noteq> k) (quotesList s) (nl, h1)")
  have src1: "wf_slice h1 (quotesList s)" "elems h1 (quotesList s) = elems h (quotesList s)"
    using wfs by (cases "quotesList s"; auto simp: h1_def nth_append)+
  have dst1: "wf_slice h1 nl" "elems h1 nl = []"
    by (simp_all add: h1_def nl_def)
  have apart: "\<And>a. ptr (quotesList s) = Some a \<Longrightarrow> away nl a"
    using wfs by (cases "quotesList s") (auto simp: nl_def)
  from range_append_elems [OF src1(1) dst1(1) apart ra] src1(2) dst1(2)
  have r: "wf_slice g d" "elems g d = filter (\<lambda>q. ID q \<noteq> k) (elems h (quotesList s))"
    by auto
  from assms(1,3,4) w mk ra have "w' = (g, s\<lparr>quotes := (quotes s)(k := None), quotesList := d\<rparr>)"
    by (cases "0 < len (quotesList s)") (auto simp: DeleteQuote.simps Let_def)
  with r w show ?thesis by (simp add: wf_state_def contents_def)
qed

lemma Close_effect:
  "Close w = (e, w') \<Longrightarrow>
   e = None \<and> wf_state w' \<and> contents w' = [] \<and> quotes (snd w') = Map.empty \<and> nextID (snd w') = 1"
  by (cases w) (auto simp: Close.simps make_slice_def wf_state_def contents_def)

section \<open>Evaluation of concrete runs\<close>

lemmas eval_simps = New.simps AddQuote.simps GetAllQuotes.simps GetRandomQuote.simps
  GetQuotesByAuthor.simps DeleteQuote.simps Close.simps make_slice_def growcap_def
  range_append_def Let_def zeroQuote_def wf_state_def contents_def store_inv_def

section \<open>The sample store\<close>

lemma demo_eval:
  "demo =
    ([[], [\<lparr>ID = 1, Text = ''a'', Author = ''Bob''\<rparr>],
      [\<lparr>ID = 1, Text = ''a'', Author = ''Bob''\<rparr>, \<lparr>ID = 2, Text = ''b'', Author = ''bob''\<rparr>],
      [\<lparr>ID = 1, Text = ''a'', Author = ''Bob''\<rparr>, \<lparr>ID = 2, Text = ''b'', Author = ''bob''\<rparr>,
       \<lparr>ID = 3, Text = ''c'', Author = '' Bob''\<rparr>, \<lparr>ID = 4, Text = ''d'', Author = ''Bob''\<rparr>]],
     \<lparr>quotes = [1 \<mapsto> \<lparr>ID = 1, Text = ''a'', Author = ''Bob''\<rparr>,
                2 \<mapsto> \<lparr>ID = 2, Text = ''b'', Author = ''bob''\<rparr>,
                3 \<mapsto> \<lparr>ID = 3, Text = ''c'', Author = '' Bob''\<rparr>,
                4 \<mapsto> \<lparr>ID = 4, Text = ''d'', Author = ''Bob''\<rparr>],
      quotesList = Slice 3 4, nextID = 5\<rparr>)"
  by (simp add: demo_def eval_simps)

lemma demo_wf: "wf_state demo"
  by (simp add: demo_eval wf_state_def)

lemma demo_contents:
  "contents demo =
     [\<lparr>ID = 1, Text = ''a'', Author = ''Bob''\<rparr>, \<lparr>ID = 2, Text = ''b'', Author = ''bob''\<rparr>,
      \<lparr>ID = 3, Text = ''c'', Author = '' Bob''\<rparr>, \<lparr>ID = 4, Text = ''d'', Author = ''Bob''\<rparr>]"
  by (simp add: demo_eval contents_def)

lemma demo_inv: "store_inv demo"
  unfolding store_inv_def demo_contents by (auto simp: demo_eval)

lemma store_inv_lookup:
  "store_inv w \<Longrightarrow> (quotes (snd w) k = None) = (\<forall>q \<in> set (contents w). ID q \<noteq> k)"
  unfolding store_inv_def by (metis domIff imageE image_eqI)

section \<open>Cancellation\<close>

text \<open>
  Claim C7, as amended. Each of the five methods that receive a context looks at it first: when
  the context is already cancelled or past its deadline the method returns the zero value and
  \<^verbatim>\<open>ctx.Err()\<close>, which is \<^verbatim>\<open>context.Canceled\<close> or \<^verbatim>\<open>context.DeadlineExceeded\<close> and never
  \<^verbatim>\<open>storage.ErrQuoteNotFound\<close>, and the heap and the store are exactly as before.
  \<^verbatim>\<open>Close()\<close> receives no context: it returns \<^verbatim>\<open>nil\<close> and empties the store whatever the
  caller's context is.
\<close>

theorem C7_cancelled_call_leaves_state:
  "Done ctx \<Longrightarrow>
     AddQuote ctx t a w = ((0, Err ctx), w) \<and>
     GetAllQuotes ctx w = ((NilSlice, Err ctx), w) \<and>
     GetRandomQuote ctx r w = ((zeroQuote, Err ctx), w) \<and>
     GetQuotesByAuthor ctx f w = ((NilSlice, Err ctx), w) \<and>
     DeleteQuote ctx k w = (Err ctx, w) \<and>
     (Err ctx = Some Canceled \<or> Err ctx = Some DeadlineExceeded) \<and>
     Err ctx \<noteq> Some ErrQuoteNotFound \<and>
     fst (Close w) = None \<and> contents (snd (Close w)) = [] \<and>
     quotes (snd (snd (Close w))) = Map.empty \<and> nextID (snd (snd (Close w))) = 1"
  using Close_effect [of w "fst (Close w)" "snd (Close w)"]
  by (cases ctx)
    (simp_all add: AddQuote_done GetAllQuotes_done GetRandomQuote_done
      GetQuotesByAuthor_done DeleteQuote_done)

text \<open>The theorem on the sample store, under a cancelled and under an expired context.\<close>

theorem C7_cancelled_call_leaves_state_witness:
  "Done Cancelled \<and>
   AddQuote Cancelled ''x'' ''y'' demo = ((0, Some Canceled), demo) \<and>
   GetAllQuotes Expired demo = ((NilSlice, Some DeadlineExceeded), demo) \<and>
   DeleteQuote Cancelled 1 demo = (Some Canceled, demo)"
  using C7_cancelled_call_leaves_state [of Cancelled "''x''" "''y''" demo 0 "''b''" 1]
    C7_cancelled_call_leaves_state [of Expired "''x''" "''y''" demo 0 "''b''" 1]
  by simp

text \<open>
  Claim C7 as stated fails for \<^verbatim>\<open>Close\<close>: a client whose context is cancelled calls
  \<open>Reset\<close> on a store holding one quote, and the store is emptied.
\<close>

theorem C7_close_ignores_cancellation:
  "Done Cancelled \<and>
   contents (snd (invoke Cancelled Reset (snd (AddQuote Background ''a'' ''b'' (snd (New []))))))
     \<noteq> contents (snd (AddQuote Background ''a'' ''b'' (snd (New []))))"
  by (simp add: eval_simps)

section \<open>Delete\<close>

text \<open>
  Claim C4. Under a live context, \<^verbatim>\<open>DeleteQuote\<close> returns \<^verbatim>\<open>ErrQuoteNotFound\<close> exactly
  when the map has no entry for the id (under the store invariant: exactly when no quote of
  the sequence carries the id); when it does so, heap and store are unchanged; and after a
  successful delete of an id, deleting the same id again returns \<^verbatim>\<open>ErrQuoteNotFound\<close>.
\<close>

theorem C4_delete_not_found:
  "\<not> Done ctx \<Longrightarrow>
     (fst (DeleteQuote ctx k w) = Some ErrQuoteNotFound \<longleftrightarrow> quotes (snd w) k = None) \<and>
     (fst (DeleteQuote ctx k w) = Some ErrQuoteNotFound \<longrightarrow> snd (DeleteQuote ctx k w) = w) \<and>
     (fst (DeleteQuote ctx k w) = None \<longrightarrow>
        fst (DeleteQuote ctx k (snd (DeleteQuote ctx k w))) = Some ErrQuoteNotFound) \<and>
     (store_inv w \<longrightarrow>
        (fst (DeleteQuote ctx k w) = Some ErrQuoteNotFound \<longleftrightarrow>
           (\<forall>q \<in> set (contents w). ID q \<noteq> k)))"
proof (cases "quotes (snd w) k = None")
  case True
  assume "\<not> Done ctx"
  from DeleteQuote_missing [OF this True] True store_inv_lookup [of w k]
  show ?thesis by simp
next
  case False
  assume live: "\<not> Done ctx"
  obtain e w' where d: "DeleteQuote ctx k w = (e, w')" by (cases "DeleteQuote ctx k w")
  from DeleteQuote_present [OF live False d]
  have e: "e = None" and gone: "quotes (snd w') k = None" by auto
  from DeleteQuote_missing [OF live gone] d e False store_inv_lookup [of w k]
  show ?thesis by auto
qed

text \<open>On the sample store: id 1 is deleted once and not found the second time; id 7 is absent.\<close>

theorem C4_delete_not_found_witness:
  "\<not> Done Background \<and> store_inv demo \<and>
   fst (DeleteQuote Background 1 demo) = None \<and>
   fst (DeleteQuote Background 1 (snd (DeleteQuote Background 1 demo))) = Some ErrQuoteNotFound \<and>
   DeleteQuote Background 7 demo = (Some ErrQuoteNotFound, demo)"
proof -
  have live: "\<not> Done Background" by simp
  have q: "quotes (snd demo) 1 \<noteq> None" "quotes (snd demo) 7 = None"
    by (simp_all add: demo_eval)
  have a1: "fst (DeleteQuote Background 1 demo) = None"
    using DeleteQuote_present [OF live q(1), of "fst (DeleteQuote Background 1 demo)"
      "snd (DeleteQuote Background 1 demo)"] by simp
  from C4_delete_not_found [OF live, of 1 demo] a1
  have a2: "fst (DeleteQuote Background 1 (snd (DeleteQuote Background 1 demo))) = Some ErrQuoteNotFound"
    by blast
  from C4_delete_not_found [OF live, of 7 demo] q(2)
  have "fst (DeleteQuote Background 7 demo) = Some ErrQuoteNotFound"
    "snd (DeleteQuote Background 7 demo) = demo" by blast+
  then have b: "DeleteQuote Background 7 demo = (Some ErrQuoteNotFound, demo)"
    by (simp add: prod_eq_iff)
  from live demo_inv a1 a2 b show ?thesis by blast
qed

text \<open>
  Claim C10. A successful \<^verbatim>\<open>DeleteQuote\<close> of id \<open>k\<close> leaves in the sequence exactly the
  quotes whose id is not \<open>k\<close>, unchanged and in their former order, removes only the entry
  \<open>k\<close> from the map, and does not touch \<^verbatim>\<open>nextID\<close>.
\<close>

theorem C10_delete_removes_only_that_id:
  assumes "\<not> Done ctx" and "wf_state w" and "DeleteQuote ctx k w = (None, w')"
  shows "contents w' = filter (\<lambda>q. ID q \<noteq> k) (contents w) \<and>
     quotes (snd w') = (quotes (snd w))(k := None) \<and>
     nextID (snd w') = nextID (snd w) \<and> wf_state w'"
proof -
  have present: "quotes (snd w) k \<noteq> None"
    using DeleteQuote_missing [OF assms(1), of w k] assms(3) by auto
  from DeleteQuote_present [OF assms(1) present assms(3)]
    DeleteQuote_effect [OF assms(1,2) present assms(3)]
  show ?thesis by simp
qed

text \<open>Deleting id 2 from the sample store keeps quotes 1, 3, 4 in order and the counter at 5.\<close>

theorem C10_delete_removes_only_that_id_witness:
  "\<not> Done Background \<and> wf_state demo \<and>
   DeleteQuote Background 2 demo = (None, snd (DeleteQuote Background 2 demo)) \<and>
   contents (snd (DeleteQuote Background 2 demo))
     = [\<lparr>ID = 1, Text = ''a'', Author = ''Bob''\<rparr>, \<lparr>ID = 3, Text = ''c'', Author = '' Bob''\<rparr>,
        \<lparr>ID = 4, Text = ''d'', Author = ''Bob''\<rparr>] \<and>
   nextID (snd (snd (DeleteQuote Background 2 demo))) = 5"
proof -
  have live: "\<not> Done Background" by simp
  have q: "quotes (snd demo) 2 \<noteq> None" "nextID (snd demo) = 5" by (simp_all add: demo_eval)
  from DeleteQuote_present [OF live q(1), of "fst (DeleteQuote Background 2 demo)"
      "snd (DeleteQuote Background 2 demo)"]
  have d: "DeleteQuote Background 2 demo = (None, snd (DeleteQuote Background 2 demo))"
    by (simp add: prod_eq_iff)
  from C10_delete_removes_only_that_id [OF live demo_wf d] d q(2) live demo_wf
  show ?thesis by (simp add: demo_contents)
qed

section \<open>Filter by author\<close>

text \<open>
  Claim C5. Under a live context \<^verbatim>\<open>GetQuotesByAuthor\<close> returns no error and a non-nil slice
  whose elements are exactly the stored quotes whose \<^verbatim>\<open>Author\<close> equals the filter string
  (equality of the two strings, character by character), in the order of the sequence; the
  store is unchanged. With no match the slice is empty and not nil.
\<close>

theorem C5_by_author_exact_filter:
  assumes "\<not> Done ctx" and "wf_state w" and "GetQuotesByAuthor ctx f w = ((l, e), w')"
  shows "e = None \<and> l \<noteq> NilSlice \<and>
     elems (fst w') l = filter (\<lambda>q. Author q = f) (contents w) \<and>
     snd w' = snd w \<and> contents w' = contents w \<and> wf_state w'"
  using GetQuotesByAuthor_effect [OF assms] by simp

text \<open>
  On the sample store the filter \<open>''Bob''\<close> selects quotes 1 and 4 and neither \<open>''bob''\<close> nor
  \<open>'' Bob''\<close>; the filter \<open>''Alice''\<close> gives an empty, non-nil slice.
\<close>

theorem C5_by_author_exact_filter_witness:
  "\<not> Done Background \<and> wf_state demo \<and>
   snd (fst (GetQuotesByAuthor Background ''Bob'' demo)) = None \<and>
   fst (fst (GetQuotesByAuthor Background ''Bob'' demo)) \<noteq> NilSlice \<and>
   elems (fst (snd (GetQuotesByAuthor Background ''Bob'' demo)))
         (fst (fst (GetQuotesByAuthor Background ''Bob'' demo)))
     = [\<lparr>ID = 1, Text = ''a'', Author = ''Bob''\<rparr>, \<lparr>ID = 4, Text = ''d'', Author = ''Bob''\<rparr>] \<and>
   snd (fst (GetQuotesByAuthor Background ''Alice'' demo)) = None \<and>
   fst (fst (GetQuotesByAuthor Background ''Alice'' demo)) \<noteq> NilSlice \<and>
   elems (fst (snd (GetQuotesByAuthor Background ''Alice'' demo)))
         (fst (fst (GetQuotesByAuthor Background ''Alice'' demo))) = []"
proof -
  have live: "\<not> Done Background" by simp
  have r: "GetQuotesByAuthor Background f demo =
      ((fst (fst (GetQuotesByAuthor Background f demo)),
        snd (fst (GetQuotesByAuthor Background f demo))),
       snd (GetQuotesByAuthor Background f demo))" for f
    by simp
  from C5_by_author_exact_filter [OF live demo_wf r [of "''Bob''"]]
    C5_by_author_exact_filter [OF live demo_wf r [of "''Alice''"]]
  show ?thesis by (simp add: demo_contents demo_wf)
qed

section \<open>Random selection\<close>

text \<open>
  Claim C6. Under a live context \<^verbatim>\<open>GetRandomQuote\<close> returns \<^verbatim>\<open>ErrQuoteNotFound\<close> exactly
  when the sequence is empty, and never changes the state. On a store of \<open>N\<close> quotes, the index
  \<open>r < N\<close> that \<^verbatim>\<open>rand.Intn(N)\<close> yields selects the stored quote at position \<open>r\<close>; when the store
  invariant holds, every stored quote is selected by exactly one of the \<open>N\<close> index values, that
  is by the fraction \<open>1/N\<close> of them, so a uniform index gives each quote probability \<open>1/N\<close>.
\<close>

theorem C6_random_uniform:
  assumes "\<not> Done ctx" and "wf_state w"
  shows "(snd (fst (GetRandomQuote ctx r w)) = Some ErrQuoteNotFound \<longleftrightarrow> contents w = []) \<and>
     snd (GetRandomQuote ctx r w) = w \<and>
     (r < length (contents w) \<longrightarrow>
        fst (GetRandomQuote ctx r w) = (contents w ! r, None) \<and>
        contents w ! r \<in> set (contents w)) \<and>
     (store_inv w \<longrightarrow>
        (\<forall>q \<in> set (contents w).
           card {i. i < length (contents w) \<and> fst (GetRandomQuote ctx i w) = (q, None)} = 1 \<and>
           real (card {i. i < length (contents w) \<and> fst (GetRandomQuote ctx i w) = (q, None)})
             / real (length (contents w)) = 1 / real (length (contents w))))"
proof -
  note eff = GetRandomQuote_effect [OF assms]
  have a: "snd (fst (GetRandomQuote ctx r w)) = Some ErrQuoteNotFound \<longleftrightarrow> contents w = []"
    by (simp add: eff)
  have b: "r < length (contents w) \<longrightarrow>
        fst (GetRandomQuote ctx r w) = (contents w ! r, None) \<and>
        contents w ! r \<in> set (contents w)"
    by (auto simp: eff)
  have c: "card {i. i < length (contents w) \<and> fst (GetRandomQuote ctx i w) = (q, None)} = 1"
    if inv: "store_inv w" and q: "q \<in> set (contents w)" for q
  proof -
    from inv have "distinct (map ID (contents w))" by (simp add: store_inv_def)
    then have d: "distinct (contents w)" by (simp add: distinct_map)
    from q obtain j where j: "j < length (contents w)" "contents w ! j = q"
      by (auto simp: in_set_conv_nth)
    have "{i. i < length (contents w) \<and> fst (GetRandomQuote ctx i w) = (q, None)} = {j}"
      using j d by (auto simp: eff nth_eq_iff_index_eq)
    then show ?thesis by simp
  qed
  show ?thesis using a b c by (simp add: GetRandomQuote_state)
qed

text \<open>
  On the sample store index 2 selects quote 3, and quote 3 is selected by exactly one of the four
  indices; on a new store the result is \<^verbatim>\<open>ErrQuoteNotFound\<close>.
\<close>

theorem C6_random_uniform_witness:
  "\<not> Done Background \<and> wf_state demo \<and> store_inv demo \<and>
   fst (GetRandomQuote Background 2 demo) = (\<lparr>ID = 3, Text = ''c'', Author = '' Bob''\<rparr>, None) \<and>
   card {i. i < 4 \<and> fst (GetRandomQuote Background i demo)
                       = (\<lparr>ID = 3, Text = ''c'', Author = '' Bob''\<rparr>, None)} = 1 \<and>
   snd (fst (GetRandomQuote Background 0 (snd (New [])))) = Some ErrQuoteNotFound"
proof -
  have live: "\<not> Done Background" by simp
  have e: "contents (snd (New [])) = []" "wf_state (snd (New []))"
    using New_effect [of "[]" "fst (New [])" "snd (New [])"] by simp_all
  have n: "length (contents demo) = 4" "(2::nat) < 4"
    "contents demo ! 2 = \<lparr>ID = 3, Text = ''c'', Author = '' Bob''\<rparr>"
    "\<lparr>ID = 3, Text = ''c'', Author = '' Bob''\<rparr> \<in> set (contents demo)"
    by (simp_all add: demo_contents)
  note t = C6_random_uniform [OF live demo_wf, of 2, unfolded n(1)]
  from t n(2,3) have a:
    "fst (GetRandomQuote Background 2 demo) = (\<lparr>ID = 3, Text = ''c'', Author = '' Bob''\<rparr>, None)"
    by simp
  from t demo_inv n(4) have b:
    "card {i. i < 4 \<and> fst (GetRandomQuote Background i demo)
                       = (\<lparr>ID = 3, Text = ''c'', Author = '' Bob''\<rparr>, None)} = 1"
    by blast
  from C6_random_uniform [OF live e(2), of 0] e(1) have c:
    "snd (fst (GetRandomQuote Background 0 (snd (New [])))) = Some ErrQuoteNotFound"
    by simp
  from live demo_wf demo_inv a b c show ?thesis by blast
qed

section \<open>Snapshots\<close>

text \<open>An array the store's slice does not use is never written.\<close>

lemma AddQuote_frame:
  assumes "a < length (fst w)" "away (quotesList (snd w)) a" "AddQuote ctx t b w = (r, w')"
  shows "fst w' ! a = fst w ! a \<and> a < length (fst w') \<and> away (quotesList (snd w')) a"
proof (cases "Done ctx")
  case True
  with assms show ?thesis by (simp add: AddQuote_done)
next
  case False
  obtain h s where w: "w = (h, s)" by (cases w)
  obtain l g where app:
    "append_slice h (quotesList s) \<lparr>ID = nextID s, Text = t, Author = b\<rparr> = (l, g)"
    by (cases "append_slice h (quotesList s) \<lparr>ID = nextID s, Text = t, Author = b\<rparr>")
  from assms(1,2) w have "a < length h" "away (quotesList s) a" by simp_all
  from append_slice_frame [OF app this] append_slice_grows [OF app] \<open>a < length h\<close>
  have "g ! a = h ! a" "away l a" "a < length g" by auto
  with False assms(3) w app show ?thesis by (auto simp: AddQuote.simps Let_def)
qed

lemma GetAllQuotes_frame:
  assumes "a < length (fst w)" "away (quotesList (snd w)) a" "GetAllQuotes ctx w = (r, w')"
  shows "fst w' ! a = fst w ! a \<and> a < length (fst w') \<and> away (quotesList (snd w')) a"
proof (cases "Done ctx")
  case True
  with assms show ?thesis by (simp add: GetAllQuotes_done)
next
  case False
  obtain h s where w: "w = (h, s)" by (cases w)
  with False assms show ?thesis
    by (auto simp: GetAllQuotes.simps make_slice_def Let_def nth_append)
qed

lemma GetQuotesByAuthor_frame:
  assumes "a < length (fst w)" "away (quotesList (snd w)) a" "GetQuotesByAuthor ctx f w = (r, w')"
  shows "fst w' ! a = fst w ! a \<and> a < length (fst w') \<and> away (quotesList (snd w')) a"
proof (cases "Done ctx")
  case True
  with assms show ?thesis by (simp add: GetQuotesByAuthor_done)
next
  case False
  obtain h s where w: "w = (h, s)" by (cases w)
  obtain d g where ra:
    "range_append (\<lambda>q. Author q = f) (quotesList s) (NilSlice, h) = (d, g)"
    by (cases "range_append (\<lambda>q. Author q = f) (quotesList s) (NilSlice, h)")
  from assms(1) w have a: "a < length h" by simp
  from range_append_frame [OF ra a] a have "g ! a = h ! a" "a < length g" by auto
  with False assms w ra show ?thesis
    by (auto simp: GetQuotesByAuthor.simps make_slice_def Let_def nth_append split: if_splits)
qed

lemma DeleteQuote_frame:
  assumes "a < length (fst w)" "away (quotesList (snd w)) a" "DeleteQuote ctx k w = (r, w')"
  shows "fst w' ! a = fst w ! a \<and> a < length (fst w') \<and> away (quotesList (snd w')) a"
proof (cases "Done ctx \<or> quotes (snd w) k = None")
  case True
  with assms show ?thesis
    by (cases "Done ctx") (auto simp: DeleteQuote_done DeleteQuote_missing)
next
  case False
  obtain h s where w: "w = (h, s)" by (cases w)
  define c where "c = (if len (quotesList s) > 0 then len (quotesList s) - 1 else 0)"
  define h1 where "h1 = h @ [replicate c zeroQuote]"
  define nl where "nl = Slice (length h) 0"
  obtain d g where ra: "range_append (\<lambda>q. ID q \<noteq> k) (quotesList s) (nl, h1) = (d, g)"
    by (cases "range_append (\<lambda>q. ID q \<noteq> k) (quotesList s) (nl, h1)")
  from assms(1) w have a: "a < length h" by simp
  then have "a < length h1" "away nl a" "h1 ! a = h ! a"
    by (simp_all add: h1_def nl_def nth_append)
  from range_append_frame [OF ra this(1,2)] this
  have g: "g ! a = h ! a" "away d a" "a < length g" by auto
  from False assms(3) w ra
  have "w' = (g, s\<lparr>quotes := (quotes s)(k := None), quotesList := d\<rparr>)"
    by (cases "0 < len (quotesList s)")
      (auto simp: DeleteQuote.simps Let_def make_slice_def c_def h1_def nl_def)
  with g w show ?thesis by simp
qed

lemma Close_frame:
  assumes "a < length (fst w)" "Close w = (r, w')"
  shows "fst w' ! a = fst w ! a \<and> a < length (fst w') \<and> away (quotesList (snd w')) a"
  using assms by (cases w) (auto simp: Close.simps make_slice_def Let_def nth_append)

lemma invoke_frame:
  assumes "a < length (fst w)" "away (quotesList (snd w)) a" "invoke ctx c w = (r, w')"
  shows "fst w' ! a = fst w ! a \<and> a < length (fst w') \<and> away (quotesList (snd w')) a"
proof (cases c)
  case (Add t b)
  with assms(3) AddQuote_frame [OF assms(1,2), of ctx t b] show ?thesis
    by (auto split: prod.splits)
next
  case ListAll
  with assms(3) GetAllQuotes_frame [OF assms(1,2), of ctx] show ?thesis
    by (auto split: prod.splits)
next
  case (Random i)
  with assms GetRandomQuote_state [of ctx i w] show ?thesis
    by (auto split: prod.splits)
next
  case (ByAuthor f)
  with assms(3) GetQuotesByAuthor_frame [OF assms(1,2), of ctx f] show ?thesis
    by (auto split: prod.splits)
next
  case (Delete k)
  with assms(3) DeleteQuote_frame [OF assms(1,2), of ctx k] show ?thesis
    by (auto split: prod.splits)
next
  case Reset
  with assms(3) Close_frame [OF assms(1)] show ?thesis
    by (auto split: prod.splits)
qed

lemma run_frame:
  "a < length (fst w) \<Longrightarrow> away (quotesList (snd w)) a \<Longrightarrow> run ops w = (rs, w') \<Longrightarrow>
   fst w' ! a = fst w ! a \<and> a < length (fst w') \<and> away (quotesList (snd w')) a"
proof (induction ops arbitrary: w rs)
  case Nil
  then show ?case by simp
next
  case (Cons x ops)
  obtain ctx c where x: "x = (ctx, c)" by (cases x)
  obtain r w1 where i: "invoke ctx c w = (r, w1)" by (cases "invoke ctx c w")
  obtain rs1 w2 where r: "run ops w1 = (rs1, w2)" by (cases "run ops w1")
  from Cons.prems(3) x i r have "w' = w2" by simp
  with r have r': "run ops w1 = (rs1, w')" by simp
  from invoke_frame [OF Cons.prems(1,2) i]
  have f1: "fst w1 ! a = fst w ! a" "a < length (fst w1)" "away (quotesList (snd w1)) a" by auto
  from Cons.IH [OF f1(2,3) r'] f1(1) show ?case by simp
qed

text \<open>
  Claim C8. Under a live context \<^verbatim>\<open>GetAllQuotes\<close> returns no error and a non-nil slice that
  shows the stored quotes in the order of the sequence. The slice has its own backing array,
  different from the one of \<^verbatim>\<open>s.quotesList\<close>, and whatever calls follow (\<open>Add\<close>, \<open>Delete\<close>,
  \<open>Reset\<close> or reads, in any number and order) the slice shows the same elements as when it
  was returned. On an empty store the slice is empty and not nil.
\<close>

theorem C8_list_all_snapshot:
  assumes "\<not> Done ctx" and "wf_state w" and "GetAllQuotes ctx w = ((l, e), w1)"
  shows "e = None \<and> l \<noteq> NilSlice \<and> elems (fst w1) l = contents w \<and>
     ptr l \<noteq> ptr (quotesList (snd w1)) \<and>
     (\<forall>ops. elems (fst (snd (run ops w1))) l = elems (fst w1) l)"
proof -
  from GetAllQuotes_effect [OF assms]
  have g: "e = None" "l = Slice (length (fst w)) (length (contents w))"
    "elems (fst w1) l = contents w" "snd w1 = snd w"
    "length (fst w1) = Suc (length (fst w))" by auto
  from assms(2) have "away (quotesList (snd w)) (length (fst w))"
    by (cases "quotesList (snd w)") (auto simp: wf_state_def)
  with g have aw: "away (quotesList (snd w1)) (length (fst w))"
    and lt: "length (fst w) < length (fst w1)" by simp_all
  have np: "ptr l \<noteq> ptr (quotesList (snd w1))"
    using aw g(2) by (cases "quotesList (snd w1)") auto
  have "elems (fst (snd (run ops w1))) l = elems (fst w1) l" for ops
    using run_frame [OF lt aw, of ops "fst (run ops w1)" "snd (run ops w1)"] g(2) by simp
  with g np show ?thesis by simp
qed

text \<open>
  A snapshot of the sample store still shows its four quotes after an \<open>Add\<close>, a \<open>Delete\<close> and
  a \<open>Reset\<close> have emptied the store; the snapshot of a new store is empty and not nil.
\<close>

theorem C8_list_all_snapshot_witness:
  "\<not> Done Background \<and> wf_state demo \<and>
   snd (fst (GetAllQuotes Background demo)) = None \<and>
   fst (fst (GetAllQuotes Background demo)) \<noteq> NilSlice \<and>
   elems (fst (snd (run [(Background, Add ''e'' ''f''), (Background, Delete 1), (Background, Reset)]
                        (snd (GetAllQuotes Background demo)))))
         (fst (fst (GetAllQuotes Background demo)))
     = [\<lparr>ID = 1, Text = ''a'', Author = ''Bob''\<rparr>, \<lparr>ID = 2, Text = ''b'', Author = ''bob''\<rparr>,
        \<lparr>ID = 3, Text = ''c'', Author = '' Bob''\<rparr>, \<lparr>ID = 4, Text = ''d'', Author = ''Bob''\<rparr>] \<and>
   contents (snd (run [(Background, Add ''e'' ''f''), (Background, Delete 1), (Background, Reset)]
                      (snd (GetAllQuotes Background demo)))) = [] \<and>
   fst (fst (GetAllQuotes Background (snd (New [])))) \<noteq> NilSlice \<and>
   elems (fst (snd (GetAllQuotes Background (snd (New [])))))
         (fst (fst (GetAllQuotes Background (snd (New []))))) = []"
proof -
  have live: "\<not> Done Background" by simp
  have r: "GetAllQuotes Background w =
      ((fst (fst (GetAllQuotes Background w)), snd (fst (GetAllQuotes Background w))),
       snd (GetAllQuotes Background w))" for w
    by simp
  have e: "contents (snd (New [])) = []" "wf_state (snd (New []))"
    using New_effect [of "[]" "fst (New [])" "snd (New [])"] by simp_all
  note t1 = C8_list_all_snapshot [OF live demo_wf r]
  note t2 = C8_list_all_snapshot [OF live e(2) r]
  from t1 have a: "snd (fst (GetAllQuotes Background demo)) = None"
    "fst (fst (GetAllQuotes Background demo)) \<noteq> NilSlice" by blast+
  from t1 have "elems (fst (snd (run [(Background, Add ''e'' ''f''), (Background, Delete 1), (Background, Reset)]
                        (snd (GetAllQuotes Background demo)))))
         (fst (fst (GetAllQuotes Background demo)))
       = elems (fst (snd (GetAllQuotes Background demo))) (fst (fst (GetAllQuotes Background demo)))"
    by blast
  also from t1 have "\<dots> = contents demo" by blast
  finally have b: "elems (fst (snd (run [(Background, Add ''e'' ''f''), (Background, Delete 1), (Background, Reset)]
                        (snd (GetAllQuotes Background demo)))))
         (fst (fst (GetAllQuotes Background demo))) = contents demo" .
  have c: "contents (snd (run [(Background, Add ''e'' ''f''), (Background, Delete 1), (Background, Reset)]
                      (snd (GetAllQuotes Background demo)))) = []"
    by (simp add: demo_eval eval_simps split: prod.splits)
  from t2 e(1) have d: "fst (fst (GetAllQuotes Background (snd (New [])))) \<noteq> NilSlice"
   "elems (fst (snd (GetAllQuotes Background (snd (New [])))))
         (fst (fst (GetAllQuotes Background (snd (New []))))) = []" by auto
  from live demo_wf a b c d show ?thesis unfolding demo_contents by blast
qed

section \<open>The id counter\<close>

lemma sint_of_nat_64: "k < 2 ^ 63 \<Longrightarrow> sint (of_nat k :: int64) = int k"
proof -
  assume k: "k < 2 ^ 63"
  have "sint (of_nat k :: int64) = signed_take_bit 63 (int k)"
    by (simp add: signed_of_nat)
  also have "\<dots> = int k"
    using k by (intro signed_take_bit_int_eq_self) auto
  finally show ?thesis .
qed

lemma of_nat_inj_64: "i < 2 ^ 64 \<Longrightarrow> j < 2 ^ 64 \<Longrightarrow> (of_nat i :: int64) = of_nat j \<Longrightarrow> i = j"
  by (simp add: word_of_nat_eq_iff take_bit_nat_eq_self)

lemma GetAllQuotes_store: "snd (snd (GetAllQuotes ctx w)) = snd w"
  by (cases w) (simp add: GetAllQuotes.simps make_slice_def Let_def)

lemma GetQuotesByAuthor_store: "snd (snd (GetQuotesByAuthor ctx f w)) = snd w"
  by (cases w) (simp add: GetQuotesByAuthor.simps make_slice_def Let_def split: prod.splits)

lemma DeleteQuote_nextID: "nextID (snd (snd (DeleteQuote ctx k w))) = nextID (snd w)"
  by (cases w) (simp add: DeleteQuote.simps Let_def split: prod.splits)

text \<open>A call other than \<open>Reset\<close> advances the counter by one when it is a live \<open>Add\<close>, which
  returns the old value, and leaves it alone otherwise.\<close>

lemma invoke_counter:
  assumes "c \<noteq> Reset" and "invoke ctx c w = (r, w')"
  shows "add_ids (r # rs) = map (\<lambda>i. nextID (snd w) + of_nat i) [0..<live_adds [(ctx, c)]] @ add_ids rs \<and>
     nextID (snd w') = nextID (snd w) + of_nat (live_adds [(ctx, c)])"
proof (cases c)
  case (Add t a)
  show ?thesis
  proof (cases "Done ctx")
    case True
    then have "Err ctx \<noteq> None" by (cases ctx) auto
    with True Add assms(2) show ?thesis by (auto simp: AddQuote_done)
  next
    case False
    obtain k e where a: "AddQuote ctx t a w = ((k, e), w')"
      using assms(2) Add by (auto split: prod.splits)
    from AddQuote_id [OF False a] a assms(2) Add False show ?thesis by auto
  qed
next
  case ListAll
  with assms(2) GetAllQuotes_store [of ctx w] show ?thesis by (auto split: prod.splits)
next
  case (Random i)
  with assms(2) GetRandomQuote_state [of ctx i w] show ?thesis by (auto split: prod.splits)
next
  case (ByAuthor f)
  with assms(2) GetQuotesByAuthor_store [of ctx f w] show ?thesis by (auto split: prod.splits)
next
  case (Delete k)
  with assms(2) DeleteQuote_nextID [of ctx k w] show ?thesis by (auto split: prod.splits)
next
  case Reset
  with assms(1) show ?thesis by simp
qed

lemma run_counter:
  "Reset \<notin> snd ` set ops \<Longrightarrow> run ops w = (rs, w') \<Longrightarrow>
   add_ids rs = map (\<lambda>i. nextID (snd w) + of_nat i) [0..<live_adds ops] \<and>
   nextID (snd w') = nextID (snd w) + of_nat (live_adds ops)"
proof (induction ops arbitrary: w rs)
  case Nil
  then show ?case by simp
next
  case (Cons x ops)
  obtain ctx c where x: "x = (ctx, c)" by (cases x)
  obtain r w1 where i: "invoke ctx c w = (r, w1)" by (cases "invoke ctx c w")
  obtain rs1 w2 where r: "run ops w1 = (rs1, w2)" by (cases "run ops w1")
  from Cons.prems(2) x i r have rs: "rs = r # rs1" and "w' = w2" by simp_all
  with r have r': "run ops w1 = (rs1, w')" by simp
  from Cons.prems(1) x have nr: "c \<noteq> Reset" "Reset \<notin> snd ` set ops" by auto
  define m where "m = live_adds [(ctx, c)]"
  define n where "n = live_adds ops"
  from invoke_counter [OF nr(1) i, of rs1]
  have s1: "add_ids (r # rs1) = map (\<lambda>i. nextID (snd w) + of_nat i) [0..<m] @ add_ids rs1"
    "nextID (snd w1) = nextID (snd w) + of_nat m" by (simp_all add: m_def)
  from Cons.IH [OF nr(2) r']
  have s2: "add_ids rs1 = map (\<lambda>i. nextID (snd w1) + of_nat i) [0..<n]"
    "nextID (snd w') = nextID (snd w1) + of_nat n" by (simp_all add: n_def)
  have mn: "live_adds (x # ops) = m + n"
    by (cases c) (simp_all add: x m_def n_def)
  have "[m..<m + n] = map (\<lambda>i. i + m) [0..<n]"
    by (simp add: map_add_upt add.commute)
  then have "map (\<lambda>i. nextID (snd w1) + of_nat i) [0..<n]
      = map (\<lambda>i. nextID (snd w) + of_nat i) [m..<m + n]"
    by (simp add: s1(2) o_def ac_simps)
  with s1 s2 have "add_ids rs = map (\<lambda>i. nextID (snd w) + of_nat i) ([0..<m] @ [m..<m + n])"
    by (simp add: rs)
  also have "[0..<m] @ [m..<m + n] = [0..<m + n]"
    by (rule upt_add_eq_append [symmetric]) simp
  finally show ?case using s1(2) s2(2) mn by (simp add: add.assoc)
qed

lemma length_add_ids:
  "Reset \<notin> snd ` set ops \<Longrightarrow> run ops w = (rs, w') \<Longrightarrow> length (add_ids rs) = live_adds ops"
  using run_counter [of ops w rs w'] by simp

text \<open>From a new store the ids are the words \<open>1, 2, 3, \<dots>\<close>.\<close>

lemma fresh_ids:
  assumes "New h = (e, w0)" and "run ops w0 = (rs, w)" and "Reset \<notin> snd ` set ops"
  shows "add_ids rs = map (\<lambda>i. of_nat (Suc i)) [0..<length (add_ids rs)] \<and>
     nextID (snd w) = of_nat (Suc (length (add_ids rs)))"
proof -
  from New_effect [OF assms(1)] have "nextID (snd w0) = 1" by simp
  with run_counter [OF assms(3,2)] length_add_ids [OF assms(3,2)]
  show ?thesis by simp
qed

lemma seq_ids_sint:
  assumes "n < 2 ^ 63"
  shows "map sint (map (\<lambda>i. of_nat (Suc i) :: int64) [0..<n]) = map int [1..<Suc n]"
proof -
  have "map sint (map (\<lambda>i. of_nat (Suc i) :: int64) [0..<n]) = map (\<lambda>i. int (Suc i)) [0..<n]"
    using assms by (simp add: sint_of_nat_64 del: of_nat_Suc)
  also have "\<dots> = map int (map Suc [0..<n])" by simp
  also have "map Suc [0..<n] = [1..<Suc n]" by (simp add: map_Suc_upt)
  finally show ?thesis .
qed

lemma seq_ids_sorted:
  assumes "n < 2 ^ 63"
  shows "sorted_wrt (\<lambda>a b. sint a < sint b) (map (\<lambda>i. of_nat (Suc i) :: int64) [0..<n])"
proof -
  have "sorted_wrt (<) (map int [1..<Suc n])"
    by (simp add: sorted_wrt_map del: upt_Suc)
  with seq_ids_sint [OF assms]
  have "sorted_wrt (<) (map sint (map (\<lambda>i. of_nat (Suc i) :: int64) [0..<n]))" by simp
  then show ?thesis by (simp only: sorted_wrt_map)
qed

lemma seq_ids_distinct:
  assumes "n \<le> 2 ^ 64"
  shows "distinct (map (\<lambda>i. of_nat (Suc i) :: int64) [0..<n])"
proof -
  have "inj_on (\<lambda>i. of_nat (Suc i) :: int64) (set [0..<n])"
  proof (rule inj_onI)
    fix i j assume ij: "i \<in> set [0..<n]" "j \<in> set [0..<n]"
      and eq: "(of_nat (Suc i) :: int64) = of_nat (Suc j)"
    from ij assms have "i < 2 ^ 64" "j < 2 ^ 64" by auto
    have "(of_nat i :: int64) = of_nat j" using eq by simp
    from of_nat_inj_64 [OF \<open>i < 2 ^ 64\<close> \<open>j < 2 ^ 64\<close> this] show "i = j" .
  qed
  then show ?thesis by (simp add: distinct_map del: of_nat_Suc)
qed

lemma live_adds_churn: "live_adds (churn i n) = n"
proof -
  have "live_adds (concat (map (\<lambda>j. [(Background, Add ''x'' ''y''), (Background, Delete (of_nat j))]) js))
      = length js" for js :: "nat list"
    by (induction js) simp_all
  then show ?thesis by (simp add: churn_def)
qed

lemma no_reset_churn: "Reset \<notin> snd ` set (churn i n)"
  by (auto simp: churn_def)

text \<open>
  Claim C3, as amended. On a store made by \<^verbatim>\<open>New\<close>, in any run of calls without \<open>Reset\<close>,
  the successful \<open>Add\<close> calls return the ids \<open>1, 2, \<dots>, n\<close> in call order as long as
  \<open>n < 2^63\<close>: read as signed 64-bit integers they start at 1 and are strictly increasing.
  They are pairwise distinct as long as \<open>n \<le> 2^64\<close>.
\<close>

theorem C3_ids_sequential:
  assumes "New h = (e, w0)" and "run ops w0 = (rs, w)" and "Reset \<notin> snd ` set ops"
  shows "(length (add_ids rs) < 2 ^ 63 \<longrightarrow>
        map sint (add_ids rs) = map int [1..<Suc (length (add_ids rs))] \<and>
        sorted_wrt (\<lambda>a b. sint a < sint b) (add_ids rs)) \<and>
     (length (add_ids rs) \<le> 2 ^ 64 \<longrightarrow> distinct (add_ids rs))"
proof -
  define n where "n = length (add_ids rs)"
  from fresh_ids [OF assms] have ids: "add_ids rs = map (\<lambda>i. of_nat (Suc i)) [0..<n]"
    by (simp add: n_def)
  have a: "map sint (add_ids rs) = map int [1..<Suc n] \<and>
      sorted_wrt (\<lambda>a b. sint a < sint b) (add_ids rs)" if "n < 2 ^ 63"
    unfolding ids using seq_ids_sint [OF that] seq_ids_sorted [OF that] by blast
  have b: "distinct (add_ids rs)" if "n \<le> 2 ^ 64"
    unfolding ids using seq_ids_distinct [OF that] .
  from a b show ?thesis unfolding n_def by blast
qed

text \<open>Three successful adds, with a delete and a cancelled add in between, return 1, 2, 3.\<close>

theorem C3_ids_sequential_witness:
  "Reset \<notin> snd ` set [(Background, Add ''a'' ''b''), (Background, Delete 1),
       (Background, Add ''c'' ''d''), (Cancelled, Add ''x'' ''y''), (Background, Add ''e'' ''f'')] \<and>
   add_ids (fst (run [(Background, Add ''a'' ''b''), (Background, Delete 1),
       (Background, Add ''c'' ''d''), (Cancelled, Add ''x'' ''y''), (Background, Add ''e'' ''f'')]
       (snd (New [])))) = [1, 2, 3] \<and>
   sorted_wrt (\<lambda>a b. sint a < sint b) [1, 2, 3 :: int64] \<and> distinct [1, 2, 3 :: int64]"
proof -
  let ?ops = "[(Background, Add ''a'' ''b''), (Background, Delete 1),
       (Background, Add ''c'' ''d''), (Cancelled, Add ''x'' ''y''), (Background, Add ''e'' ''f'')]"
  have nr: "Reset \<notin> snd ` set ?ops" by simp
  have ids: "add_ids (fst (run ?ops (snd (New [])))) = [1, 2, 3]"
    by (simp add: eval_simps split: prod.splits)
  have n: "New [] = (fst (New []), snd (New []))"
    "run ?ops (snd (New [])) = (fst (run ?ops (snd (New []))), snd (run ?ops (snd (New []))))"
    by simp_all
  from C3_ids_sequential [OF n nr] show ?thesis unfolding ids using nr by simp
qed

text \<open>
  Claim C3 as stated fails once the counter passes \<open>2^63 - 1\<close>: after \<open>2^63\<close> rounds of adding
  a quote and deleting it again on a new store, the last two ids returned are \<open>2^63 - 1\<close> and
  \<open>- 2^63\<close>, since \<^verbatim>\<open>s.nextID++\<close> wraps around.
\<close>

theorem C3_ids_wrap_around:
  "sint (add_ids (fst (run (churn 1 (2 ^ 63)) (snd (New [])))) ! (2 ^ 63 - 2)) = 2 ^ 63 - 1 \<and>
   sint (add_ids (fst (run (churn 1 (2 ^ 63)) (snd (New [])))) ! (2 ^ 63 - 1)) = - (2 ^ 63) \<and>
   \<not> sorted_wrt (\<lambda>a b. sint a < sint b)
        (add_ids (fst (run (churn 1 (2 ^ 63)) (snd (New [])))))"
proof -
  let ?rs = "fst (run (churn 1 (2 ^ 63)) (snd (New [])))"
  have n: "New [] = (fst (New []), snd (New []))"
    "run (churn 1 (2 ^ 63)) (snd (New [])) = (?rs, snd (run (churn 1 (2 ^ 63)) (snd (New []))))"
    by simp_all
  from length_add_ids [OF no_reset_churn n(2)] have len: "length (add_ids ?rs) = 2 ^ 63"
    by (simp add: live_adds_churn)
  from fresh_ids [OF n no_reset_churn] len
  have ids: "add_ids ?rs = map (\<lambda>i. of_nat (Suc i)) [0..<2 ^ 63]" by simp
  have i: "(2 ^ 63 - 2 :: nat) < 2 ^ 63 - 1" "(2 ^ 63 - 1 :: nat) < length (add_ids ?rs)"
    unfolding len by simp_all
  have "add_ids ?rs ! (2 ^ 63 - 2) = (2 ^ 63 - 1 :: int64)"
    unfolding ids by (simp del: of_nat_Suc upt_Suc)
  then have a: "sint (add_ids ?rs ! (2 ^ 63 - 2)) = 2 ^ 63 - 1" by simp
  have "add_ids ?rs ! (2 ^ 63 - 1) = (2 ^ 63 :: int64)"
    unfolding ids by (simp del: of_nat_Suc upt_Suc)
  then have b: "sint (add_ids ?rs ! (2 ^ 63 - 1)) = - (2 ^ 63)" by simp
  have "\<not> sorted_wrt (\<lambda>a b. sint a < sint b) (add_ids ?rs)"
  proof
    assume "sorted_wrt (\<lambda>a b. sint a < sint b) (add_ids ?rs)"
    from sorted_wrt_nth_less [OF this i] a b show False by simp
  qed
  with a b show ?thesis by blast
qed

text \<open>
  Claim C9, as amended. On a store made by \<^verbatim>\<open>New\<close>, after any run of calls without \<open>Reset\<close>
  in which fewer than \<open>2^63 - 1\<close> \<open>Add\<close> calls succeeded, \<^verbatim>\<open>nextID\<close> is greater than every id
  those calls returned, and no id was returned twice. The statement holds for every run, hence
  after every prefix of a run. \<^verbatim>\<open>Close\<close> sets \<^verbatim>\<open>nextID\<close> back to 1.
\<close>

theorem C9_counter_above_ids:
  assumes "New h = (e, w0)" and "run ops w0 = (rs, w)" and "Reset \<notin> snd ` set ops"
    and "length (add_ids rs) < 2 ^ 63 - 1"
  shows "(\<forall>k \<in> set (add_ids rs). sint k < sint (nextID (snd w))) \<and> distinct (add_ids rs) \<and>
     nextID (snd (snd (Close w))) = 1"
proof -
  define n where "n = length (add_ids rs)"
  from fresh_ids [OF assms(1,2,3)]
  have ids: "add_ids rs = map (\<lambda>i. of_nat (Suc i)) [0..<n]"
    and nx: "nextID (snd w) = of_nat (Suc n)"
    by (simp_all add: n_def)
  from assms(4) have n: "Suc n < 2 ^ 63" by (simp add: n_def)
  have "sint k < sint (nextID (snd w))" if "k \<in> set (add_ids rs)" for k
  proof -
    from that obtain i where i: "i < n" "k = of_nat (Suc i)" by (auto simp: ids)
    with n have "Suc i < 2 ^ 63" by simp
    from sint_of_nat_64 [OF this] sint_of_nat_64 [OF n] i nx show ?thesis by simp
  qed
  moreover from n have "distinct (add_ids rs)"
    unfolding ids by (intro seq_ids_distinct) simp
  moreover have "nextID (snd (snd (Close w))) = 1"
    using Close_effect [of w "fst (Close w)" "snd (Close w)"] by simp
  ultimately show ?thesis by blast
qed

text \<open>Two adds and a delete: the ids are 1 and 2 and the counter is 3.\<close>

theorem C9_counter_above_ids_witness:
  "Reset \<notin> snd ` set [(Background, Add ''a'' ''b''), (Background, Delete 1),
       (Background, Add ''c'' ''d'')] \<and>
   add_ids (fst (run [(Background, Add ''a'' ''b''), (Background, Delete 1),
       (Background, Add ''c'' ''d'')] (snd (New [])))) = [1, 2] \<and>
   nextID (snd (snd (run [(Background, Add ''a'' ''b''), (Background, Delete 1),
       (Background, Add ''c'' ''d'')] (snd (New []))))) = 3 \<and>
   sint (1 :: int64) < sint (3 :: int64) \<and> sint (2 :: int64) < sint (3 :: int64) \<and>
   distinct [1, 2 :: int64]"
proof -
  let ?ops = "[(Background, Add ''a'' ''b''), (Background, Delete 1), (Background, Add ''c'' ''d'')]"
  have nr: "Reset \<notin> snd ` set ?ops" by simp
  have ids: "add_ids (fst (run ?ops (snd (New [])))) = [1, 2]"
    and nx: "nextID (snd (snd (run ?ops (snd (New []))))) = 3"
    by (simp_all add: eval_simps split: prod.splits)
  have n: "New [] = (fst (New []), snd (New []))"
    "run ?ops (snd (New [])) = (fst (run ?ops (snd (New []))), snd (run ?ops (snd (New []))))"
    by simp_all
  have l: "length (add_ids (fst (run ?ops (snd (New []))))) < 2 ^ 63 - 1"
    unfolding ids by simp
  from C9_counter_above_ids [OF n nr l] show ?thesis unfolding ids nx using nr by simp
qed

text \<open>
  Claim C9 as stated fails across a \<open>Reset\<close>: \<open>Add\<close>, \<open>Reset\<close>, \<open>Add\<close> on a new store returns
  id 1 twice, and after the \<open>Reset\<close> the counter is 1, not greater than the id 1 already
  assigned.
\<close>

theorem C9_reset_restarts_counter:
  "\<not> distinct (add_ids (fst (run [(Background, Add ''a'' ''b''), (Background, Reset),
                                  (Background, Add ''c'' ''d'')] (snd (New []))))) \<and>
   add_ids (fst (run [(Background, Add ''a'' ''b''), (Background, Reset)] (snd (New [])))) = [1] \<and>
   \<not> sint (1 :: int64) <
       sint (nextID (snd (snd (run [(Background, Add ''a'' ''b''), (Background, Reset)]
                                   (snd (New []))))))"
  by (simp add: eval_simps split: prod.splits)

section \<open>The store after the counter has wrapped around\<close>

lemma churn_Suc:
  "churn i (Suc n) = (Background, Add ''x'' ''y'') # (Background, Delete (of_nat i)) # churn (Suc i) n"
  by (simp add: churn_def upt_conv_Cons del: upt_Suc)

lemma churn_0: "churn i 0 = []"
  by (simp add: churn_def)

text \<open>One round of \<open>churn\<close> only advances the counter, when the id it uses is not stored.\<close>

lemma churn_round:
  assumes "wf_state w" and "quotes (snd w) (nextID (snd w)) = None"
    and "\<forall>q \<in> set (contents w). ID q \<noteq> nextID (snd w)"
    and "run [(Background, Add ''x'' ''y''), (Background, Delete (nextID (snd w)))] w = (rs, w')"
  shows "wf_state w' \<and> contents w' = contents w \<and> quotes (snd w') = quotes (snd w) \<and>
     nextID (snd w') = nextID (snd w) + 1"
proof -
  define k where "k = nextID (snd w)"
  obtain r1 w1 where a: "AddQuote Background ''x'' ''y'' w = (r1, w1)"
    by (cases "AddQuote Background ''x'' ''y'' w")
  obtain e2 w2 where d: "DeleteQuote Background k w1 = (e2, w2)"
    by (cases "DeleteQuote Background k w1")
  from assms(4) a d have w': "w' = w2" by (cases r1) (simp add: k_def)
  have live: "\<not> Done Background" by simp
  from AddQuote_effect [OF live assms(1), of "''x''" "''y''" "fst r1" "snd r1" w1] a
  have a1: "wf_state w1" "contents w1 = contents w @ [\<lparr>ID = k, Text = ''x'', Author = ''y''\<rparr>]"
    "quotes (snd w1) = (quotes (snd w))(k \<mapsto> \<lparr>ID = k, Text = ''x'', Author = ''y''\<rparr>)"
    "nextID (snd w1) = k + 1"
    by (simp_all add: k_def)
  from a1(3) have present: "quotes (snd w1) k \<noteq> None" by simp
  from DeleteQuote_present [OF live present d] DeleteQuote_effect [OF live a1(1) present d]
  have d1: "wf_state w2" "contents w2 = filter (\<lambda>q. ID q \<noteq> k) (contents w1)"
    "quotes (snd w2) = (quotes (snd w1))(k := None)" "nextID (snd w2) = nextID (snd w1)"
    by simp_all
  from assms(3) have "filter (\<lambda>q. ID q \<noteq> k) (contents w) = contents w"
    by (simp add: k_def)
  with d1(2) a1(2) have c: "contents w2 = contents w" by simp
  from assms(2) d1(3) a1(3) have m: "quotes (snd w2) = quotes (snd w)"
    by (simp add: k_def fun_upd_idem)
  from d1(1,4) a1(4) c m w' show ?thesis by (simp add: k_def)
qed

lemma run_append_state:
  "snd (run (xs @ ys) w) = snd (run ys (snd (run xs w)))"
proof (induction xs arbitrary: w)
  case Nil
  show ?case by simp
next
  case (Cons x xs)
  obtain ctx c where x: "x = (ctx, c)" by (cases x)
  from Cons.IH [of "snd (invoke ctx c w)"] show ?case
    by (simp add: x case_prod_beta)
qed

lemma churn_run:
  assumes "wf_state w" and "nextID (snd w) = of_nat i"
    and "\<forall>j. i \<le> j \<and> j < i + n \<longrightarrow>
           quotes (snd w) (of_nat j) = None \<and> (\<forall>q \<in> set (contents w). ID q \<noteq> of_nat j)"
  shows "wf_state (snd (run (churn i n) w)) \<and>
     contents (snd (run (churn i n) w)) = contents w \<and>
     quotes (snd (snd (run (churn i n) w))) = quotes (snd w) \<and>
     nextID (snd (snd (run (churn i n) w))) = of_nat (i + n)"
  using assms
proof (induction n arbitrary: w i)
  case 0
  then show ?case by (simp add: churn_0)
next
  case (Suc n)
  let ?round = "[(Background, Add ''x'' ''y''), (Background, Delete (nextID (snd w)))]"
  define w1 where "w1 = snd (run ?round w)"
  have r: "run ?round w = (fst (run ?round w), w1)" by (simp add: w1_def)
  from Suc.prems(3) [rule_format, of i] Suc.prems(2)
  have f: "quotes (snd w) (nextID (snd w)) = None"
    "\<forall>q \<in> set (contents w). ID q \<noteq> nextID (snd w)" by simp_all
  from churn_round [OF Suc.prems(1) f r]
  have s1: "wf_state w1" "contents w1 = contents w" "quotes (snd w1) = quotes (snd w)"
    "nextID (snd w1) = of_nat (Suc i)" by (simp_all add: Suc.prems(2))
  have rest: "\<forall>j. Suc i \<le> j \<and> j < Suc i + n \<longrightarrow>
           quotes (snd w1) (of_nat j) = None \<and> (\<forall>q \<in> set (contents w1). ID q \<noteq> of_nat j)"
    using Suc.prems(3) s1(2,3) by simp
  have split: "churn i (Suc n) = ?round @ churn (Suc i) n"
    by (simp add: churn_Suc Suc.prems(2))
  have "snd (run (churn i (Suc n)) w) = snd (run (churn (Suc i) n) w1)"
    unfolding split run_append_state w1_def ..
  with Suc.IH [OF s1(1,4) rest] s1(2,3) show ?case by simp
qed

lemma of_nat_ne_1:
  assumes "2 \<le> j" and "j < 2 ^ 64 + 1"
  shows "(of_nat j :: int64) \<noteq> 1"
proof
  assume "(of_nat j :: int64) = 1"
  then have "(of_nat j :: int64) = of_nat 1" by simp
  then have "take_bit 64 j = take_bit 64 (1 :: nat)"
    by (simp only: word_of_nat_eq_iff) simp
  then have "j mod 2 ^ 64 = 1" by (simp add: take_bit_eq_mod)
  with assms show False
    by (cases "j = 2 ^ 64") auto
qed

lemma wrapped_view:
  "wf_state wrapped \<and> contents wrapped = [\<lparr>ID = 1, Text = ''a'', Author = ''b''\<rparr>] \<and>
   quotes (snd wrapped) = [1 \<mapsto> \<lparr>ID = 1, Text = ''a'', Author = ''b''\<rparr>] \<and>
   nextID (snd wrapped) = 1"
proof -
  define w1 where "w1 = snd (AddQuote Background ''a'' ''b'' (snd (New [])))"
  have live: "\<not> Done Background" by simp
  from New_effect [of "[]" "fst (New [])" "snd (New [])"]
  have n: "wf_state (snd (New []))" "contents (snd (New [])) = []"
    "quotes (snd (snd (New []))) = Map.empty" "nextID (snd (snd (New []))) = 1" by simp_all
  from AddQuote_effect [OF live n(1), of "''a''" "''b''"
      "fst (fst (AddQuote Background ''a'' ''b'' (snd (New []))))"
      "snd (fst (AddQuote Background ''a'' ''b'' (snd (New []))))" w1] n
  have a: "wf_state w1" "contents w1 = [\<lparr>ID = 1, Text = ''a'', Author = ''b''\<rparr>]"
    "quotes (snd w1) = [1 \<mapsto> \<lparr>ID = 1, Text = ''a'', Author = ''b''\<rparr>]"
    "nextID (snd w1) = of_nat 2"
    by (simp_all add: w1_def)
  have free: "\<forall>j. 2 \<le> j \<and> j < 2 + (2 ^ 64 - 1) \<longrightarrow>
      quotes (snd w1) (of_nat j) = None \<and> (\<forall>q \<in> set (contents w1). ID q \<noteq> of_nat j)"
    using of_nat_ne_1 by (auto simp: a)
  have w: "wrapped = snd (run (churn 2 (2 ^ 64 - 1)) w1)"
    by (simp add: wrapped_def w1_def split: prod.splits)
  have "(of_nat (2 + (2 ^ 64 - 1)) :: int64) = 1" by simp
  with churn_run [OF a(1,4) free] a(2,3) show ?thesis unfolding w by simp
qed

section \<open>The store invariant\<close>

lemma store_inv_same:
  "contents w' = contents w \<Longrightarrow> quotes (snd w') = quotes (snd w) \<Longrightarrow> store_inv w' = store_inv w"
  by (simp add: store_inv_def)

lemma store_inv_empty:
  "contents w = [] \<Longrightarrow> quotes (snd w) = Map.empty \<Longrightarrow> store_inv w"
  by (simp add: store_inv_def)

lemma store_inv_add:
  assumes "store_inv w" and "quotes (snd w) k = None"
    and "contents w' = contents w @ [\<lparr>ID = k, Text = t, Author = a\<rparr>]"
    and "quotes (snd w') = (quotes (snd w))(k \<mapsto> \<lparr>ID = k, Text = t, Author = a\<rparr>)"
  shows "store_inv w'"
proof -
  from assms(1,2) have new: "k \<notin> ID ` set (contents w)"
    unfolding store_inv_def by (metis domIff)
  then have ne: "\<forall>q \<in> set (contents w). ID q \<noteq> k" by auto
  from assms(1) have d: "distinct (map ID (contents w))"
    and dm: "dom (quotes (snd w)) = ID ` set (contents w)"
    and lk: "\<forall>q \<in> set (contents w). quotes (snd w) (ID q) = Some q"
    by (simp_all add: store_inv_def)
  show ?thesis
    unfolding store_inv_def assms(3,4) using new ne d dm lk by auto
qed

lemma store_inv_delete:
  assumes "store_inv w"
    and "contents w' = filter (\<lambda>q. ID q \<noteq> k) (contents w)"
    and "quotes (snd w') = (quotes (snd w))(k := None)"
  shows "store_inv w'"
proof -
  from assms(1) have d: "distinct (map ID (contents w))"
    and dm: "dom (quotes (snd w)) = ID ` set (contents w)"
    and lk: "\<forall>q \<in> set (contents w). quotes (snd w) (ID q) = Some q"
    by (simp_all add: store_inv_def)
  have "distinct (map ID (filter (\<lambda>q. ID q \<noteq> k) (contents w)))"
    using d by (rule distinct_map_filter)
  moreover have "dom ((quotes (snd w))(k := None)) = ID ` set (filter (\<lambda>q. ID q \<noteq> k) (contents w))"
    using dm by auto
  moreover have "\<forall>q \<in> set (filter (\<lambda>q. ID q \<noteq> k) (contents w)).
      ((quotes (snd w))(k := None)) (ID q) = Some q"
    using lk by simp
  ultimately show ?thesis unfolding store_inv_def assms(2,3) by blast
qed

lemma invoke_store_inv:
  assumes "wf_state w" and "store_inv w" and "invoke ctx c w = (r, w')"
    and "(\<exists>t a. c = Add t a) \<longrightarrow> quotes (snd w) (nextID (snd w)) = None"
  shows "wf_state w' \<and> store_inv w'"
proof (cases c)
  case (Add t a)
  show ?thesis
  proof (cases "Done ctx")
    case True
    with Add assms(1,2,3) show ?thesis by (auto simp: AddQuote_done)
  next
    case False
    obtain k e where a: "AddQuote ctx t a w = ((k, e), w')"
      using assms(3) Add by (auto split: prod.splits)
    note eff = AddQuote_effect [OF False assms(1) a]
    from assms(4) Add eff have "quotes (snd w) k = None" by simp
    from store_inv_add [OF assms(2) this] eff show ?thesis by simp
  qed
next
  case ListAll
  show ?thesis
  proof (cases "Done ctx")
    case True
    with ListAll assms(1,2,3) show ?thesis by (auto simp: GetAllQuotes_done)
  next
    case False
    obtain l e where a: "GetAllQuotes ctx w = ((l, e), w')"
      using assms(3) ListAll by (auto split: prod.splits)
    from GetAllQuotes_effect [OF False assms(1) a] assms(2)
      store_inv_same [of w' w] show ?thesis by simp
  qed
next
  case (Random i)
  with assms(1,2,3) GetRandomQuote_state [of ctx i w] show ?thesis
    by (auto split: prod.splits)
next
  case (ByAuthor f)
  show ?thesis
  proof (cases "Done ctx")
    case True
    with ByAuthor assms(1,2,3) show ?thesis by (auto simp: GetQuotesByAuthor_done)
  next
    case False
    obtain l e where a: "GetQuotesByAuthor ctx f w = ((l, e), w')"
      using assms(3) ByAuthor by (auto split: prod.splits)
    from GetQuotesByAuthor_effect [OF False assms(1) a] assms(2)
      store_inv_same [of w' w] show ?thesis by simp
  qed
next
  case (Delete k)
  from assms(3) Delete have d: "DeleteQuote ctx k w = (reply_err r, w')"
    by (auto split: prod.splits)
  show ?thesis
  proof (cases "Done ctx")
    case True
    with d assms(1,2) show ?thesis by (simp add: DeleteQuote_done)
  next
    case False
    show ?thesis
    proof (cases "quotes (snd w) k = None")
      case True
      with d False assms(1,2) show ?thesis by (simp add: DeleteQuote_missing)
    next
      case present: False
      from DeleteQuote_present [OF False present d] DeleteQuote_effect [OF False assms(1) present d]
        store_inv_delete [OF assms(2), of w' k]
      show ?thesis by simp
    qed
  qed
next
  case Reset
  from assms(3) Reset have "Close w = (reply_err r, w')" by (auto split: prod.splits)
  from Close_effect [OF this] show ?thesis by (simp add: store_inv_empty)
qed

lemma of_nat_fresh_64:
  assumes "i0 \<le> i" and "i < i0 + 2 ^ 64"
  shows "(of_nat i :: int64) \<notin> of_nat ` {i0..<i}"
proof
  assume "(of_nat i :: int64) \<in> of_nat ` {i0..<i}"
  then obtain j where j: "i0 \<le> j" "j < i" "(of_nat i :: int64) = of_nat j" by auto
  then have "(of_nat (j + (i - j)) :: int64) = of_nat j" by simp
  then have "(of_nat (i - j) :: int64) = of_nat 0" by (simp only: of_nat_add) simp
  moreover from j assms have "i - j < 2 ^ 64" "(0 :: nat) < 2 ^ 64" by simp_all
  ultimately have "i - j = 0" by (rule of_nat_inj_64 [rotated 2])
  with j show False by simp
qed

lemma DeleteQuote_dom: "dom (quotes (snd (snd (DeleteQuote ctx k w)))) \<subseteq> dom (quotes (snd w))"
  by (cases w) (auto simp: DeleteQuote.simps Let_def split: prod.splits if_splits)

lemma invoke_dom:
  assumes "c \<noteq> Reset" and "invoke ctx c w = (r, w')"
  shows "dom (quotes (snd w')) \<subseteq>
     (if live_adds [(ctx, c)] = 0 then dom (quotes (snd w))
      else insert (nextID (snd w)) (dom (quotes (snd w))))"
proof (cases c)
  case (Add t a)
  show ?thesis
  proof (cases "Done ctx")
    case True
    with Add assms(2) show ?thesis by (auto simp: AddQuote_done)
  next
    case False
    obtain k e where a: "AddQuote ctx t a w = ((k, e), w')"
      using assms(2) Add by (auto split: prod.splits)
    from AddQuote_id [OF False a] Add False show ?thesis by auto
  qed
next
  case ListAll
  with assms(2) GetAllQuotes_store [of ctx w] show ?thesis by (auto split: prod.splits)
next
  case (Random i)
  with assms(2) GetRandomQuote_state [of ctx i w] show ?thesis by (auto split: prod.splits)
next
  case (ByAuthor f)
  with assms(2) GetQuotesByAuthor_store [of ctx f w] show ?thesis by (auto split: prod.splits)
next
  case (Delete k)
  with assms(2) DeleteQuote_dom [of ctx k w] show ?thesis by (auto split: prod.splits)
next
  case Reset
  with assms(1) show ?thesis by simp
qed

text \<open>
  While the ids in use lie in a stretch of at most \<open>2^64\<close> consecutive counter values, the
  invariant is kept along a run.
\<close>

lemma invoke_inv:
  assumes "wf_state w" and "store_inv w" and "invoke ctx c w = (r, w')" and "c \<noteq> Reset"
    and "nextID (snd w) = of_nat i" and "dom (quotes (snd w)) \<subseteq> of_nat ` {i0..<i}"
    and "i0 \<le> i" and "i + live_adds [(ctx, c)] \<le> i0 + 2 ^ 64"
  shows "wf_state w' \<and> store_inv w' \<and> nextID (snd w') = of_nat (i + live_adds [(ctx, c)]) \<and>
     dom (quotes (snd w')) \<subseteq> of_nat ` {i0..<i + live_adds [(ctx, c)]}"
proof -
  have la: "live_adds [(ctx, c)] = 0 \<or> live_adds [(ctx, c)] = 1"
    by (cases c) auto
  have fresh: "quotes (snd w) (nextID (snd w)) = None" if "live_adds [(ctx, c)] = 1"
  proof -
    from that assms(8) have "i < i0 + 2 ^ 64" by simp
    from of_nat_fresh_64 [OF assms(7) this] assms(5,6) show ?thesis by auto
  qed
  have inv: "wf_state w' \<and> store_inv w'"
  proof (cases "live_adds [(ctx, c)] = 1")
    case True
    with fresh have "(\<exists>t a. c = Add t a) \<longrightarrow> quotes (snd w) (nextID (snd w)) = None" by simp
    from invoke_store_inv [OF assms(1,2,3) this] show ?thesis .
  next
    case False
    with la have z: "live_adds [(ctx, c)] = 0" by simp
    show ?thesis
    proof (cases "\<exists>t a. c = Add t a")
      case True
      with z have "Done ctx" by (auto split: if_splits)
      with True assms(1,2,3) show ?thesis by (auto simp: AddQuote_done)
    next
      case False
      then have "(\<exists>t a. c = Add t a) \<longrightarrow> quotes (snd w) (nextID (snd w)) = None" by simp
      from invoke_store_inv [OF assms(1,2,3) this] show ?thesis .
    qed
  qed
  from invoke_counter [OF assms(4,3), of "[]"] assms(5)
  have nx: "nextID (snd w') = of_nat (i + live_adds [(ctx, c)])" by simp
  have "dom (quotes (snd w')) \<subseteq> of_nat ` {i0..<i + live_adds [(ctx, c)]}"
  proof (cases "live_adds [(ctx, c)] = 0")
    case True
    with invoke_dom [OF assms(4,3)] assms(6) show ?thesis by simp
  next
    case False
    with la have o: "live_adds [(ctx, c)] = 1" by simp
    have up: "insert (of_nat i) (of_nat ` {i0..<i}) \<subseteq> (of_nat ` {i0..<i + 1} :: int64 set)"
      using assms(7) by auto
    from invoke_dom [OF assms(4,3)] o assms(5)
    have "dom (quotes (snd w')) \<subseteq> insert (of_nat i) (dom (quotes (snd w)))" by simp
    also from assms(6) have "\<dots> \<subseteq> insert (of_nat i) (of_nat ` {i0..<i})" by blast
    also note up
    finally show ?thesis by (simp only: o)
  qed
  with inv nx show ?thesis by simp
qed

lemma run_inv:
  "wf_state w \<Longrightarrow> store_inv w \<Longrightarrow> run ops w = (rs, w') \<Longrightarrow> Reset \<notin> snd ` set ops \<Longrightarrow>
   nextID (snd w) = of_nat i \<Longrightarrow> dom (quotes (snd w)) \<subseteq> of_nat ` {i0..<i} \<Longrightarrow>
   i0 \<le> i \<Longrightarrow> i + live_adds ops \<le> i0 + 2 ^ 64 \<Longrightarrow>
   wf_state w' \<and> store_inv w'"
proof (induction ops arbitrary: w rs i)
  case Nil
  then show ?case by simp
next
  case (Cons x ops)
  obtain ctx c where x: "x = (ctx, c)" by (cases x)
  obtain r w1 where iv: "invoke ctx c w = (r, w1)" by (cases "invoke ctx c w")
  obtain rs1 w2 where r: "run ops w1 = (rs1, w2)" by (cases "run ops w1")
  from Cons.prems(3) x iv r have "w' = w2" by simp
  with r have r': "run ops w1 = (rs1, w')" by simp
  from Cons.prems(4) x have nr: "c \<noteq> Reset" "Reset \<notin> snd ` set ops" by auto
  define m where "m = live_adds [(ctx, c)]"
  have mn: "live_adds (x # ops) = m + live_adds ops"
    by (cases c) (simp_all add: x m_def)
  with Cons.prems(8) have b1: "i + m \<le> i0 + 2 ^ 64"
    and b2: "(i + m) + live_adds ops \<le> i0 + 2 ^ 64" by simp_all
  from invoke_inv [OF Cons.prems(1,2) iv nr(1) Cons.prems(5,6,7) b1 [unfolded m_def]]
  have s: "wf_state w1" "store_inv w1" "nextID (snd w1) = of_nat (i + m)"
    "dom (quotes (snd w1)) \<subseteq> of_nat ` {i0..<i + m}" by (simp_all add: m_def)
  from Cons.prems(7) have "i0 \<le> i + m" by simp
  from Cons.IH [OF s(1,2) r' nr(2) s(3,4) this b2] show ?case .
qed

lemma run_from_empty:
  assumes "wf_state w0" and "contents w0 = []" and "quotes (snd w0) = Map.empty"
    and "nextID (snd w0) = 1"
    and "Reset \<notin> snd ` set ops" and "live_adds ops \<le> 2 ^ 64"
  shows "wf_state (snd (run ops w0)) \<and> store_inv (snd (run ops w0))"
proof -
  have r: "run ops w0 = (fst (run ops w0), snd (run ops w0))" by simp
  have n: "nextID (snd w0) = of_nat 1" "dom (quotes (snd w0)) \<subseteq> of_nat ` {1..<1}"
    by (simp_all add: assms(3,4))
  from assms(6) have b: "1 + live_adds ops \<le> 1 + 2 ^ 64" by simp
  from run_inv [OF assms(1) store_inv_empty [OF assms(2,3)] r assms(5) n order_refl b]
  show ?thesis .
qed

text \<open>
  Claim C1, as amended. Every call keeps the store invariant (and memory safety), where for
  \<open>Add\<close> the value of \<^verbatim>\<open>nextID\<close> must not be a key of the map already. A store made by
  \<^verbatim>\<open>New\<close> or emptied by \<^verbatim>\<open>Close\<close> satisfies the invariant, and so does every store reached
  from it by calls without \<open>Reset\<close> among which at most \<open>2^64\<close> \<open>Add\<close> calls are live: there
  the counter is never a key. (It is one only after it has wrapped around the 64-bit range to
  an id that is still stored.)
\<close>

theorem C1_store_inv_preserved:
  "(wf_state w \<and> store_inv w \<and>
      ((\<exists>t a. c = Add t a) \<longrightarrow> quotes (snd w) (nextID (snd w)) = None)
    \<longrightarrow> wf_state (snd (invoke ctx c w)) \<and> store_inv (snd (invoke ctx c w))) \<and>
   ((w0 = snd (New h) \<or> w0 = snd (Close w)) \<and>
      Reset \<notin> snd ` set ops \<and> live_adds ops \<le> 2 ^ 64
    \<longrightarrow> wf_state (snd (run ops w0)) \<and> store_inv (snd (run ops w0)))"
proof -
  have a: "wf_state (snd (invoke ctx c w)) \<and> store_inv (snd (invoke ctx c w))"
    if "wf_state w" "store_inv w"
      "(\<exists>t a. c = Add t a) \<longrightarrow> quotes (snd w) (nextID (snd w)) = None"
    using invoke_store_inv [OF that(1,2) _ that(3), of ctx "fst (invoke ctx c w)"
        "snd (invoke ctx c w)"] by simp
  have b: "wf_state (snd (run ops w0)) \<and> store_inv (snd (run ops w0))"
    if "w0 = snd (New h) \<or> w0 = snd (Close w)" "Reset \<notin> snd ` set ops" "live_adds ops \<le> 2 ^ 64"
  proof -
    from that(1) New_effect [of h "fst (New h)" "snd (New h)"]
      Close_effect [of w "fst (Close w)" "snd (Close w)"]
    have "wf_state w0" "contents w0 = []" "quotes (snd w0) = Map.empty" "nextID (snd w0) = 1"
      by auto
    from run_from_empty [OF this that(2,3)] show ?thesis .
  qed
  from a b show ?thesis by blast
qed

text \<open>
  On the sample store, whose counter 5 is not a key: after an \<open>Add\<close>, a \<open>Delete\<close>, a \<open>Reset\<close>;
  and after a short run on a new store and on a store that was reset.
\<close>

theorem C1_store_inv_preserved_witness:
  "wf_state demo \<and> store_inv demo \<and> quotes (snd demo) (nextID (snd demo)) = None \<and>
   wf_state (snd (invoke Background (Add ''e'' ''f'') demo)) \<and>
   store_inv (snd (invoke Background (Add ''e'' ''f'') demo)) \<and>
   store_inv (snd (invoke Background (Delete 2) demo)) \<and>
   store_inv (snd (invoke Background Reset demo)) \<and>
   Reset \<notin> snd ` set [(Background, Add ''g'' ''h''), (Background, Delete 1), (Background, ListAll)] \<and>
   live_adds [(Background, Add ''g'' ''h''), (Background, Delete 1), (Background, ListAll)] \<le> 2 ^ 64 \<and>
   store_inv (snd (run [(Background, Add ''g'' ''h''), (Background, Delete 1), (Background, ListAll)]
                       (snd (New [])))) \<and>
   store_inv (snd (run [(Background, Add ''g'' ''h''), (Background, Delete 1), (Background, ListAll)]
                       (snd (Close demo))))"
proof -
  let ?ops = "[(Background, Add ''g'' ''h''), (Background, Delete 1), (Background, ListAll)]"
  have f: "quotes (snd demo) (nextID (snd demo)) = None" by (simp add: demo_eval)
  have o: "Reset \<notin> snd ` set ?ops" "live_adds ?ops \<le> 2 ^ 64" by simp_all
  note t = C1_store_inv_preserved [where w = demo and ctx = Background and ?w0.0 = "snd (New [])" and h = "[]"
      and ops = ?ops]
  note u = C1_store_inv_preserved [where w = demo and ctx = Background and ?w0.0 = "snd (Close demo)" and h = "[]"
      and ops = ?ops and c = Reset]
  from t [where c = "Add ''e'' ''f''"] t [where c = "Delete 2"] t [where c = Reset] u
    f o demo_wf demo_inv
  show ?thesis by blast
qed

text \<open>
  Claim C1 as stated fails for \<open>Add\<close> on the store \<open>wrapped\<close>, which the methods themselves
  produce from a new store: it satisfies the invariant, holds quote 1 and has the counter back
  at 1, so the next \<open>Add\<close> stores a second quote with id 1 in the sequence.
\<close>

theorem C1_add_after_wrap_breaks_inv:
  "wf_state wrapped \<and> store_inv wrapped \<and>
   contents wrapped = [\<lparr>ID = 1, Text = ''a'', Author = ''b''\<rparr>] \<and>
   nextID (snd wrapped) = 1 \<and>
   contents (snd (invoke Background (Add ''c'' ''d'') wrapped))
     = [\<lparr>ID = 1, Text = ''a'', Author = ''b''\<rparr>, \<lparr>ID = 1, Text = ''c'', Author = ''d''\<rparr>] \<and>
   \<not> store_inv (snd (invoke Background (Add ''c'' ''d'') wrapped))"
proof -
  note v = wrapped_view
  have live: "\<not> Done Background" by simp
  from v have inv: "store_inv wrapped" by (simp add: store_inv_def)
  define w' where "w' = snd (AddQuote Background ''c'' ''d'' wrapped)"
  have "AddQuote Background ''c'' ''d'' wrapped =
      ((fst (fst (AddQuote Background ''c'' ''d'' wrapped)),
        snd (fst (AddQuote Background ''c'' ''d'' wrapped))), w')"
    by (simp add: w'_def)
  from AddQuote_effect [OF live conjunct1 [OF v] this] v
  have c: "contents w' = [\<lparr>ID = 1, Text = ''a'', Author = ''b''\<rparr>, \<lparr>ID = 1, Text = ''c'', Author = ''d''\<rparr>]"
    by simp
  then have "\<not> store_inv w'" by (simp add: store_inv_def)
  moreover have "snd (invoke Background (Add ''c'' ''d'') wrapped) = w'"
    by (simp add: w'_def split: prod.splits)
  ultimately show ?thesis using v inv c by simp
qed

section \<open>An added quote stays listed\<close>

lemma add_ids_Cons: "add_ids (r # rs) = add_ids [r] @ add_ids rs"
  by (cases r; cases "reply_err r") auto

text \<open>The quote with id \<open>k\<close> stays the only one with that id.\<close>

lemma invoke_keeps:
  assumes "wf_state w" and "filter (\<lambda>q. ID q = k) (contents w) = [q0]"
    and "invoke ctx c w = (r, w')"
    and "c \<noteq> Reset" and "c \<noteq> Delete k" and "k \<notin> set (add_ids [r])"
  shows "wf_state w' \<and> filter (\<lambda>q. ID q = k) (contents w') = [q0]"
proof (cases c)
  case (Add t a)
  show ?thesis
  proof (cases "Done ctx")
    case True
    with Add assms(1,2,3) show ?thesis by (auto simp: AddQuote_done)
  next
    case False
    obtain j e where a: "AddQuote ctx t a w = ((j, e), w')"
      using assms(3) Add by (auto split: prod.splits)
    note eff = AddQuote_effect [OF False assms(1) a]
    from assms(3,6) Add a eff have "j \<noteq> k" by auto
    with eff assms(2) show ?thesis by simp
  qed
next
  case ListAll
  show ?thesis
  proof (cases "Done ctx")
    case True
    with ListAll assms(1,2,3) show ?thesis by (auto simp: GetAllQuotes_done)
  next
    case False
    obtain l e where a: "GetAllQuotes ctx w = ((l, e), w')"
      using assms(3) ListAll by (auto split: prod.splits)
    from GetAllQuotes_effect [OF False assms(1) a] assms(2) show ?thesis by simp
  qed
next
  case (Random i)
  with assms(1,2,3) GetRandomQuote_state [of ctx i w] show ?thesis
    by (auto split: prod.splits)
next
  case (ByAuthor f)
  show ?thesis
  proof (cases "Done ctx")
    case True
    with ByAuthor assms(1,2,3) show ?thesis by (auto simp: GetQuotesByAuthor_done)
  next
    case False
    obtain l e where a: "GetQuotesByAuthor ctx f w = ((l, e), w')"
      using assms(3) ByAuthor by (auto split: prod.splits)
    from GetQuotesByAuthor_effect [OF False assms(1) a] assms(2) show ?thesis by simp
  qed
next
  case (Delete j)
  with assms(5) have jk: "j \<noteq> k" by simp
  from assms(3) Delete have d: "DeleteQuote ctx j w = (reply_err r, w')"
    by (auto split: prod.splits)
  show ?thesis
  proof (cases "Done ctx")
    case True
    with d assms(1,2) show ?thesis by (simp add: DeleteQuote_done)
  next
    case False
    show ?thesis
    proof (cases "quotes (snd w) j = None")
      case True
      with d False assms(1,2) show ?thesis by (simp add: DeleteQuote_missing)
    next
      case present: False
      from DeleteQuote_effect [OF False assms(1) present d]
      have e: "wf_state w'" "contents w' = filter (\<lambda>q. ID q \<noteq> j) (contents w)" by simp_all
      have "filter (\<lambda>q. ID q = k) (filter (\<lambda>q. ID q \<noteq> j) (contents w))
          = filter (\<lambda>q. ID q = k) (contents w)"
        using jk by (auto intro: filter_cong)
      with e assms(2) show ?thesis by simp
    qed
  qed
next
  case Reset
  with assms(4) show ?thesis by simp
qed

lemma run_keeps:
  "wf_state w \<Longrightarrow> filter (\<lambda>q. ID q = k) (contents w) = [q0] \<Longrightarrow> run ops w = (rs, w') \<Longrightarrow>
   Reset \<notin> snd ` set ops \<Longrightarrow> Delete k \<notin> snd ` set ops \<Longrightarrow> k \<notin> set (add_ids rs) \<Longrightarrow>
   wf_state w' \<and> filter (\<lambda>q. ID q = k) (contents w') = [q0]"
proof (induction ops arbitrary: w rs)
  case Nil
  then show ?case by simp
next
  case (Cons x ops)
  obtain ctx c where x: "x = (ctx, c)" by (cases x)
  obtain r w1 where i: "invoke ctx c w = (r, w1)" by (cases "invoke ctx c w")
  obtain rs1 w2 where r: "run ops w1 = (rs1, w2)" by (cases "run ops w1")
  from Cons.prems(3) x i r have rs: "rs = r # rs1" and "w' = w2" by simp_all
  with r have r': "run ops w1 = (rs1, w')" by simp
  from Cons.prems(4,5) x have c: "c \<noteq> Reset" "c \<noteq> Delete k"
    and ops: "Reset \<notin> snd ` set ops" "Delete k \<notin> snd ` set ops" by auto
  from Cons.prems(6) rs add_ids_Cons [of r rs1]
  have k: "k \<notin> set (add_ids [r])" "k \<notin> set (add_ids rs1)" by auto
  from invoke_keeps [OF Cons.prems(1,2) i c k(1)]
  have "wf_state w1" "filter (\<lambda>q. ID q = k) (contents w1) = [q0]" by simp_all
  from Cons.IH [OF this r' ops k(2)] show ?case .
qed

text \<open>
  Claim C2, as amended. Let a live \<open>Add(t, a)\<close> return id \<open>k\<close> on a store none of whose quotes
  has id \<open>k\<close>. After any further calls that contain no \<open>Reset\<close> and no \<open>Delete(k)\<close> and in
  which no \<open>Add\<close> returns \<open>k\<close> again, a live \<open>ListAll\<close> shows exactly one quote with id \<open>k\<close>,
  and it is the quote with text \<open>t\<close> and author \<open>a\<close>.
\<close>

theorem C2_added_quote_listed_once:
  assumes "wf_state w" and "\<not> Done ctx" and "AddQuote ctx t a w = ((k, e), w1)"
    and "\<forall>q \<in> set (contents w). ID q \<noteq> k"
    and "run ops w1 = (rs, w2)"
    and "Reset \<notin> snd ` set ops" and "Delete k \<notin> snd ` set ops" and "k \<notin> set (add_ids rs)"
    and "\<not> Done ctx'" and "GetAllQuotes ctx' w2 = ((l, e'), w3)"
  shows "e = None \<and> e' = None \<and>
     filter (\<lambda>q. ID q = k) (elems (fst w3) l) = [\<lparr>ID = k, Text = t, Author = a\<rparr>] \<and>
     count_list (elems (fst w3) l) \<lparr>ID = k, Text = t, Author = a\<rparr> = 1"
proof -
  let ?q = "\<lparr>ID = k, Text = t, Author = a\<rparr>"
  note add = AddQuote_effect [OF assms(2,1,3)]
  from assms(4) have "filter (\<lambda>q. ID q = k) (contents w) = []" by (simp add: filter_empty_conv)
  with add have one: "filter (\<lambda>q. ID q = k) (contents w1) = [?q]" and wf1: "wf_state w1" by simp_all
  from run_keeps [OF wf1 one assms(5,6,7,8)]
  have wf2: "wf_state w2" and two: "filter (\<lambda>q. ID q = k) (contents w2) = [?q]" by simp_all
  from GetAllQuotes_effect [OF assms(9) wf2 assms(10)]
  have l: "e' = None" "elems (fst w3) l = contents w2" by blast+
  have "filter ((=) ?q) (contents w2) = filter ((=) ?q) (filter (\<lambda>q. ID q = k) (contents w2))"
    by (auto intro: filter_cong)
  also have "\<dots> = [?q]" by (simp add: two)
  finally have "count_list (contents w2) ?q = 1"
    by (simp add: count_list_eq_length_filter)
  with add l two show ?thesis by simp
qed

text \<open>
  On the sample store \<open>Add\<close> returns 5; after another \<open>Add\<close> (id 6) and the deletion of quote 1
  the quote 5 is listed once.
\<close>

theorem C2_added_quote_listed_once_witness:
  "wf_state demo \<and> \<not> Done Background \<and>
   fst (AddQuote Background ''e'' ''f'' demo) = (5, None) \<and>
   Reset \<notin> snd ` set [(Background, Add ''g'' ''h''), (Background, Delete 1)] \<and>
   Delete 5 \<notin> snd ` set [(Background, Add ''g'' ''h''), (Background, Delete 1)] \<and>
   add_ids (fst (run [(Background, Add ''g'' ''h''), (Background, Delete 1)]
                     (snd (AddQuote Background ''e'' ''f'' demo)))) = [6] \<and>
   count_list
     (elems (fst (snd (GetAllQuotes Background
        (snd (run [(Background, Add ''g'' ''h''), (Background, Delete 1)]
                  (snd (AddQuote Background ''e'' ''f'' demo)))))))
        (fst (fst (GetAllQuotes Background
        (snd (run [(Background, Add ''g'' ''h''), (Background, Delete 1)]
                  (snd (AddQuote Background ''e'' ''f'' demo))))))))
     \<lparr>ID = 5, Text = ''e'', Author = ''f''\<rparr> = 1"
proof -
  let ?ops = "[(Background, Add ''g'' ''h''), (Background, Delete 1)]"
  let ?w1 = "snd (AddQuote Background ''e'' ''f'' demo)"
  let ?w2 = "snd (run ?ops ?w1)"
  have live: "\<not> Done Background" by simp
  have a0: "fst (AddQuote Background ''e'' ''f'' demo) = (5, None)"
    by (simp add: demo_eval eval_simps)
  then have a: "AddQuote Background ''e'' ''f'' demo = ((5, None), ?w1)"
    by (simp add: prod_eq_iff)
  have fresh: "\<forall>q \<in> set (contents demo). ID q \<noteq> 5" by (simp add: demo_contents)
  have ids: "add_ids (fst (run ?ops ?w1)) = [6]"
    by (simp add: demo_eval eval_simps split: prod.splits)
  have r: "run ?ops ?w1 = (fst (run ?ops ?w1), ?w2)" by simp
  have nr: "Reset \<notin> snd ` set ?ops" "Delete 5 \<notin> snd ` set ?ops" by simp_all
  have nk: "5 \<notin> set (add_ids (fst (run ?ops ?w1)))" unfolding ids by simp
  have g: "GetAllQuotes Background ?w2 =
      ((fst (fst (GetAllQuotes Background ?w2)), snd (fst (GetAllQuotes Background ?w2))),
       snd (GetAllQuotes Background ?w2))" by simp
  from C2_added_quote_listed_once [OF demo_wf live a fresh r nr nk live g]
  have "count_list (elems (fst (snd (GetAllQuotes Background ?w2)))
      (fst (fst (GetAllQuotes Background ?w2)))) \<lparr>ID = 5, Text = ''e'', Author = ''f''\<rparr> = 1"
    by blast
  with a0 demo_wf live nr ids show ?thesis by blast
qed

text \<open>
  Claim C2 as stated fails on the store \<open>wrapped\<close>: \<open>Add(''a'', ''b'')\<close> returns id 1 again, and
  \<open>ListAll\<close> then shows the quote with id 1, text \<open>''a''\<close>, author \<open>''b''\<close> twice.
\<close>

theorem C2_same_quote_listed_twice_after_wrap:
  "wf_state wrapped \<and>
   fst (AddQuote Background ''a'' ''b'' wrapped) = (1, None) \<and>
   snd (fst (GetAllQuotes Background (snd (AddQuote Background ''a'' ''b'' wrapped)))) = None \<and>
   count_list
     (elems (fst (snd (GetAllQuotes Background (snd (AddQuote Background ''a'' ''b'' wrapped)))))
            (fst (fst (GetAllQuotes Background (snd (AddQuote Background ''a'' ''b'' wrapped))))))
     \<lparr>ID = 1, Text = ''a'', Author = ''b''\<rparr> = 2"
proof -
  note v = wrapped_view
  have live: "\<not> Done Background" by simp
  define w' where "w' = snd (AddQuote Background ''a'' ''b'' wrapped)"
  have a: "AddQuote Background ''a'' ''b'' wrapped =
      ((fst (fst (AddQuote Background ''a'' ''b'' wrapped)),
        snd (fst (AddQuote Background ''a'' ''b'' wrapped))), w')"
    by (simp add: w'_def)
  from AddQuote_effect [OF live conjunct1 [OF v] a] v
  have e: "fst (AddQuote Background ''a'' ''b'' wrapped) = (1, None)" "wf_state w'"
    "contents w' = [\<lparr>ID = 1, Text = ''a'', Author = ''b''\<rparr>, \<lparr>ID = 1, Text = ''a'', Author = ''b''\<rparr>]"
    by (simp_all add: prod_eq_iff)
  have g: "GetAllQuotes Background w' =
      ((fst (fst (GetAllQuotes Background w')), snd (fst (GetAllQuotes Background w'))),
       snd (GetAllQuotes Background w'))" by simp
  from GetAllQuotes_effect [OF live e(2) g]
  have n: "snd (fst (GetAllQuotes Background w')) = None"
    and "elems (fst (snd (GetAllQuotes Background w'))) (fst (fst (GetAllQuotes Background w')))
       = contents w'" by blast+
  then have "count_list (elems (fst (snd (GetAllQuotes Background w'))) (fst (fst (GetAllQuotes Background w'))))
       \<lparr>ID = 1, Text = ''a'', Author = ''b''\<rparr> = 2"
    by (simp only: e(3)) simp
  note this n
  with e(1) v show ?thesis unfolding w'_def by blast
qed

end
